theory Spec2Isabelle
  imports Complex_Main
begin

section \<open>Monotonic chunkwise attention (neural\_sp/models/modules/mocha.py)\<close>

text \<open>
  Tensors are nested lists over \<open>real\<close>: a \<open>row\<close> is the key axis (length \<open>klen\<close>),
  a \<open>mat\<close> is \<open>[qlen][klen]\<close>, a \<open>tensor3\<close> is \<open>[H][qlen][klen]\<close> and a \<open>tensor4\<close> is
  \<open>[B][H][qlen][klen]\<close>.  Arithmetic is exact real arithmetic; float32 rounding,
  overflow and underflow are outside the model.
\<close>

type_synonym row = "real list"
type_synonym mat = "row list"
type_synonym tensor3 = "mat list"
type_synonym tensor4 = "tensor3 list"

subsection \<open>Numeric primitives\<close>

text \<open>\<open>torch.clamp(x, min=lo, max=hi)\<close>: the lower bound is applied first, then the upper.\<close>

definition clamp :: "real \<Rightarrow> real \<Rightarrow> real \<Rightarrow> real" where
  "clamp x lo hi = min (max x lo) hi"

text \<open>\<open>torch.cumsum(x, dim=-1)\<close> and \<open>torch.cumprod(x, dim=-1)\<close> on one row.\<close>

fun cumsum_from :: "real \<Rightarrow> row \<Rightarrow> row" where
  "cumsum_from acc [] = []"
| "cumsum_from acc (x # xs) = (acc + x) # cumsum_from (acc + x) xs"

definition cumsum :: "row \<Rightarrow> row" where
  "cumsum xs = cumsum_from 0 xs"

fun cumprod_from :: "real \<Rightarrow> row \<Rightarrow> row" where
  "cumprod_from acc [] = []"
| "cumprod_from acc (x # xs) = (acc * x) # cumprod_from (acc * x) xs"

definition cumprod :: "row \<Rightarrow> row" where
  "cumprod xs = cumprod_from 1 xs"

text \<open>
  \<open>exclusive_cumsum\<close>: \<open>torch.cumsum(torch.cat([zeros(..., 1), x[..., :-1]], dim=-1), dim=-1)\<close>;
  \<open>exclusive_cumprod\<close> likewise with ones and \<open>cumprod\<close>.
\<close>

definition exclusive_cumsum :: "row \<Rightarrow> row" where
  "exclusive_cumsum x = cumsum (0 # butlast x)"

definition exclusive_cumprod :: "row \<Rightarrow> row" where
  "exclusive_cumprod x = cumprod (1 # butlast x)"

text \<open>
  \<open>safe_cumprod(x, eps) = exp(exclusive_cumsum(log(clamp(x, min=eps, max=1.0))))\<close>.
\<close>

definition safe_cumprod :: "row \<Rightarrow> real \<Rightarrow> row" where
  "safe_cumprod x eps = map exp (exclusive_cumsum (map ln (map (\<lambda>v. clamp v eps 1) x)))"

text \<open>
  \<open>F.conv1d(x_padded, filters)\<close> with one input and one output channel, stride one and no
  padding of its own: output position \<open>j\<close> is the dot product of the filter with the
  window of the input starting at \<open>j\<close>; there are \<open>len(x) - len(w) + 1\<close> positions.
\<close>

definition conv1d :: "row \<Rightarrow> row \<Rightarrow> row" where
  "conv1d xs ws =
     map (\<lambda>j. sum_list (map2 (*) (take (length ws) (drop j xs)) ws))
         [0 ..< Suc (length xs) - length ws]"

text \<open>
  \<open>moving_sum(x, back, forward)\<close>.  The source flattens its five-dimensional argument with
  \<open>x.view(-1, klen)\<close>, works on every row of length \<open>klen\<close> independently and restores
  the shape; this is the function on one such row, for nonnegative \<open>back\<close> and
  \<open>forward\<close> and \<open>klen \<ge> 1\<close> (the source raises on an empty key axis).
\<close>

definition moving_sum :: "row \<Rightarrow> nat \<Rightarrow> nat \<Rightarrow> row" where
  "moving_sum x back forward =
     (let x_padded = replicate back 0 @ x @ replicate forward 0;
          filters = replicate (back + forward + 1) 1
      in conv1d x_padded filters)"

text \<open>
  The naive sliding-window sum of the specification: at position \<open>j\<close>, the sum of the
  input over the positions \<open>j - back\<close> through \<open>j + forward\<close>, clipped to the sequence.
\<close>

definition naive_moving_sum :: "row \<Rightarrow> nat \<Rightarrow> nat \<Rightarrow> row" where
  "naive_moving_sum x back forward =
     map (\<lambda>j. sum_list (map (\<lambda>i. x ! i) [j - back ..< min (length x) (j + forward + 1)]))
         [0 ..< length x]"

subsection \<open>Errors, slices and broadcasting\<close>

text \<open>The exceptions of the source are values; a failing computation returns \<open>Inl\<close>.\<close>

datatype error =
  AssertionError | ValueError | NotImplementedError | RuntimeError | IndexError | TypeError
  | ZeroDivisionError

fun sequence :: "(error + 'a) list \<Rightarrow> error + 'a list" where
  "sequence [] = Inr []"
| "sequence (x # xs) =
     (case x of
        Inl e \<Rightarrow> Inl e
      | Inr v \<Rightarrow> (case sequence xs of Inl e \<Rightarrow> Inl e | Inr vs \<Rightarrow> Inr (v # vs)))"

text \<open>\<open>x[i:i+1]\<close> along one axis: one element when \<open>i\<close> is in range, none otherwise.\<close>

definition slice1 :: "nat \<Rightarrow> 'a list \<Rightarrow> 'a list" where
  "slice1 i xs = take 1 (drop i xs)"

text \<open>\<open>x[:, j]\<close> of a matrix: entry \<open>j\<close> of every row.\<close>

definition col :: "nat \<Rightarrow> mat \<Rightarrow> real list" where
  "col j m = map (\<lambda>r. r ! j) m"

text \<open>
  An elementwise operation with torch's broadcasting along one axis: the sizes agree, or
  one of them is one and that operand is repeated (also zero times).  Sizes that torch
  rejects do not arise from arguments of the documented shapes; the model returns the
  empty list there.
\<close>

definition bc :: "('a \<Rightarrow> 'b \<Rightarrow> 'c) \<Rightarrow> 'a list \<Rightarrow> 'b list \<Rightarrow> 'c list" where
  "bc f xs ys =
     (if length xs = length ys then map2 f xs ys
      else if length xs = 1 then map (f (hd xs)) ys
      else if length ys = 1 then map (\<lambda>x. f x (hd ys)) xs
      else [])"

text \<open>
  \<open>x[i:i+1, c] = vals\<close> on a matrix: row \<open>i\<close> is written when it exists; when the slice
  is empty nothing is written.
\<close>

definition assign_col :: "nat \<Rightarrow> nat \<Rightarrow> real list \<Rightarrow> mat \<Rightarrow> mat" where
  "assign_col i c vals m =
     (if i < length m \<and> vals \<noteq> [] then m[i := (m ! i)[c := hd vals]] else m)"

text \<open>
  One axis of an operand of an in-place operation, broadcast to the size \<open>n\<close> of the
  target: it has that size, or size one; anything else is torch's \<open>RuntimeError\<close>.
\<close>

definition expand_to :: "nat \<Rightarrow> 'a list \<Rightarrow> error + 'a list" where
  "expand_to n ys =
     (if length ys = n then Inr ys
      else if length ys = 1 then Inr (replicate n (hd ys))
      else Inl RuntimeError)"

definition bmap2 :: "('a \<Rightarrow> 'b \<Rightarrow> error + 'c) \<Rightarrow> 'a list \<Rightarrow> 'b list \<Rightarrow> error + 'c list" where
  "bmap2 f xs ys =
     (case expand_to (length xs) ys of
        Inl e \<Rightarrow> Inl e
      | Inr ys' \<Rightarrow> sequence (map2 f xs ys'))"

text \<open>\<open>x.size() == (bs, h, qlen, klen)\<close> for a four-dimensional tensor.\<close>

definition has_shape4 :: "nat \<Rightarrow> nat \<Rightarrow> nat \<Rightarrow> nat \<Rightarrow> 'a list list list list \<Rightarrow> bool" where
  "has_shape4 bs h qlen klen x =
     (length x = bs \<and>
      list_all (\<lambda>x3. length x3 = h \<and>
        list_all (\<lambda>x2. length x2 = qlen \<and> list_all (\<lambda>x1. length x1 = klen) x2) x3) x)"

text \<open>\<open>x.size() == (bs, qlen, klen)\<close> for a three-dimensional tensor.\<close>

definition has_shape3 :: "nat \<Rightarrow> nat \<Rightarrow> nat \<Rightarrow> 'a list list list \<Rightarrow> bool" where
  "has_shape3 bs qlen klen x =
     (length x = bs \<and>
      list_all (\<lambda>x2. length x2 = qlen \<and> list_all (\<lambda>x1. length x1 = klen) x2) x)"

text \<open>\<open>x.size(1)\<close> of a batch of sequences.\<close>

definition size1 :: "'a list list \<Rightarrow> nat" where
  "size1 x = (case x of [] \<Rightarrow> 0 | x0 # _ \<Rightarrow> length x0)"

subsection \<open>Energy scorers\<close>

text \<open>\<open>NEG_INF = float(np.finfo(np.float32).min)\<close>, the most negative finite float32.\<close>

definition NEG_INF :: real where
  "NEG_INF = - (2 ^ 128 - 2 ^ 104)"

definition relu :: "real \<Rightarrow> real" where
  "relu x = max x 0"

definition sigmoid :: "real \<Rightarrow> real" where
  "sigmoid x = 1 / (1 + exp (- x))"

text \<open>
  \<open>torch.sigmoid\<close> on a float32 tensor, as the soft modes use its result: the logistic
  function with the underflow of float32 written out.  A result below \<open>2\<^sup>-\<^sup>1\<^sup>5\<^sup>0\<close>, half the
  smallest positive float32, is \<open>0.0\<close>; this is what happens at the sentinel \<open>NEG_INF\<close>.
  The rounding of the other results is not modelled.  The hard mode only compares the
  result with \<open>0.5\<close>, which the underflow does not change.
\<close>

definition torch_sigmoid :: "real \<Rightarrow> real" where
  "torch_sigmoid x = (if sigmoid x < 1 / 2 ^ 150 then 0 else sigmoid x)"

definition dot :: "real list \<Rightarrow> real list \<Rightarrow> real" where
  "dot u v = sum_list (map2 (*) u v)"

text \<open>
  A scorer (\<open>MonotonicEnergy\<close> or \<open>ChunkEnergy\<close>).  The \<open>nn.Linear\<close> layers \<open>w_key\<close>,
  \<open>w_query\<close> and \<open>v\<close> are functions on feature vectors, applied along the last axis;
  \<open>conv1d\<close> is the \<open>CausalConv1d\<close> module on one key sequence
  (\<open>neural_sp.models.modules.causal_conv\<close>, not part of the sources at hand), \<open>None\<close> when
  the scorer has none.  \<open>r\<close> is the offset of the monotonic scorer; the chunk scorer has
  none.  \<open>sc_key_cache\<close> is \<open>self.key\<close> (\<open>[B][H][klen][d_k]\<close>) and \<open>sc_mask_cache\<close> is
  \<open>self.mask\<close> (\<open>[B][H][qlen][klen]\<close>, \<open>None\<close> when there is no mask).
\<close>

record scorer =
  sc_atype :: string
  sc_n_heads :: nat
  sc_d_k :: nat
  sc_scale :: real
  sc_w_key :: "real list \<Rightarrow> real list"
  sc_w_query :: "real list \<Rightarrow> real list"
  sc_v :: "real list \<Rightarrow> real list"
  sc_r :: "real option"
  sc_conv1d_layer :: "(mat \<Rightarrow> mat) option"
  sc_key_cache :: "mat list list option"
  sc_mask_cache :: "bool list list list list option"

text \<open>\<open>reset\<close>: both caches are dropped.\<close>

definition reset_scorer :: "scorer \<Rightarrow> scorer" where
  "reset_scorer s = s\<lparr>sc_key_cache := None, sc_mask_cache := None\<rparr>"

text \<open>
  \<open>x.view(bs, -1, n_heads, d_k).transpose(2, 1)\<close> on one batch element: head \<open>h\<close> gets the
  components \<open>h * d_k ..< (h + 1) * d_k\<close> of every vector.
\<close>

definition split_heads :: "nat \<Rightarrow> nat \<Rightarrow> mat \<Rightarrow> mat list" where
  "split_heads h dk x = map (\<lambda>i. map (\<lambda>u. take dk (drop (i * dk) u)) x) [0 ..< h]"

text \<open>
  The pre-computation of the encoder-side features (the branch
  \<open>if self.key is None or not cache\<close>), common to both scorers; \<open>use_conv\<close> is false for
  the chunk scorer, which has no convolution.  \<open>msk\<close> is the argument \<open>mask\<close>
  (\<open>[B][qlen][klen]\<close>, true at the valid key positions).
\<close>

definition precompute :: "bool \<Rightarrow> scorer \<Rightarrow> mat list \<Rightarrow> nat \<Rightarrow> bool list list list option
    \<Rightarrow> bool \<Rightarrow> error + scorer" where
  "precompute use_conv s key qlen msk cache =
     (if sc_key_cache s = None \<or> \<not> cache then
        (let bs = length key; klen = size1 key;
             key1 = (case (if use_conv then sc_conv1d_layer s else None) of
                       None \<Rightarrow> key
                     | Some c \<Rightarrow> map (\<lambda>k. map (map relu) (c k)) key);
             key2 = map (\<lambda>k. split_heads (sc_n_heads s) (sc_d_k s) (map (sc_w_key s) k)) key1
         in case msk of
              None \<Rightarrow> Inr (s\<lparr>sc_key_cache := Some key2, sc_mask_cache := None\<rparr>)
            | Some m \<Rightarrow>
                (let m4 = map (\<lambda>mb. replicate (sc_n_heads s) mb) m
                 in if has_shape4 bs (sc_n_heads s) qlen klen m4
                    then Inr (s\<lparr>sc_key_cache := Some key2, sc_mask_cache := Some m4\<rparr>)
                    else Inl AssertionError))
      else Inr s)"

text \<open>\<open>e.masked_fill_(self.mask == 0, NEG_INF)\<close>, the mask broadcast to the shape of \<open>e\<close>.\<close>

definition masked_fill :: "tensor4 \<Rightarrow> bool list list list list \<Rightarrow> error + tensor4" where
  "masked_fill e m =
     bmap2 (bmap2 (bmap2 (bmap2 (\<lambda>x keep. Inr (if keep then x else NEG_INF))))) e m"

definition apply_mask :: "scorer \<Rightarrow> nat \<Rightarrow> nat \<Rightarrow> nat \<Rightarrow> tensor4 \<Rightarrow> error + tensor4" where
  "apply_mask s bs qlen klen e =
     (case (case sc_mask_cache s of None \<Rightarrow> Inr e | Some m \<Rightarrow> masked_fill e m) of
        Inl err \<Rightarrow> Inl err
      | Inr e' \<Rightarrow> if has_shape4 bs (sc_n_heads s) qlen klen e' then Inr e' else Inl AssertionError)"

text \<open>
  \<open>MonotonicEnergy.forward(key, query, mask, cache)\<close>: the energy and the scorer with its
  caches as the call leaves them.  For \<open>'add'\<close>, the vector for query \<open>i\<close> and key \<open>j\<close>
  is the concatenation over the heads of \<open>relu(key + query)\<close>, and \<open>v\<close> maps it to one
  scalar per head; for \<open>'scaled_dot'\<close> it is the dot product of the head's slices over
  \<open>scale\<close>.  Any other \<open>atype\<close> is refused by the constructor.
\<close>

definition MonotonicEnergy_forward ::
    "scorer \<Rightarrow> mat list \<Rightarrow> mat list \<Rightarrow> bool list list list option \<Rightarrow> bool
     \<Rightarrow> error + tensor4 \<times> scorer" where
  "MonotonicEnergy_forward s key query msk cache =
     (let bs = length key; klen = size1 key; qlen = size1 query
      in case precompute True s key qlen msk cache of
           Inl err \<Rightarrow> Inl err
         | Inr s' \<Rightarrow>
             (let keyh = the (sc_key_cache s');
                  queryh = map (\<lambda>q. split_heads (sc_n_heads s) (sc_d_k s) (map (sc_w_query s) q)) query;
                  e = map2 (\<lambda>kb qb.
                        map (\<lambda>h.
                          map (\<lambda>i.
                            map (\<lambda>j.
                              (if sc_atype s = ''add''
                               then sc_v s (map relu (concat (map (\<lambda>h'.
                                       map2 (+) (kb ! h' ! j) (qb ! h' ! i)) [0 ..< sc_n_heads s]))) ! h
                               else dot (qb ! h ! i) (kb ! h ! j) / sc_scale s)
                              + (case sc_r s of None \<Rightarrow> 0 | Some r0 \<Rightarrow> r0))
                            [0 ..< klen])
                          [0 ..< qlen])
                        [0 ..< sc_n_heads s]) keyh queryh
              in case apply_mask s' bs qlen klen e of
                   Inl err \<Rightarrow> Inl err
                 | Inr e' \<Rightarrow> Inr (e', s')))"

text \<open>
  \<open>ChunkEnergy.forward\<close>.  For \<open>'add'\<close> the query is not split into heads: the head's key
  slice (\<open>d_k\<close> components) is added to the whole projected query, which torch accepts
  when the two sizes agree or one of them is one, and \<open>v\<close> yields one scalar.
\<close>

definition ChunkEnergy_forward ::
    "scorer \<Rightarrow> mat list \<Rightarrow> mat list \<Rightarrow> bool list list list option \<Rightarrow> bool
     \<Rightarrow> error + tensor4 \<times> scorer" where
  "ChunkEnergy_forward s key query msk cache =
     (let bs = length key; klen = size1 key; qlen = size1 query
      in case precompute False s key qlen msk cache of
           Inl err \<Rightarrow> Inl err
         | Inr s' \<Rightarrow>
             (let keyh = the (sc_key_cache s');
                  queryp = map (map (sc_w_query s)) query;
                  queryh = map (split_heads (sc_n_heads s) (sc_d_k s)) queryp;
                  e = map2 (\<lambda>kb (qp, qb).
                        map (\<lambda>h.
                          map (\<lambda>i.
                            map (\<lambda>j.
                              (if sc_atype s = ''add''
                               then hd (sc_v s (map relu (bc (+) (kb ! h ! j) (qp ! i))))
                               else dot (qb ! h ! i) (kb ! h ! j) / sc_scale s))
                            [0 ..< klen])
                          [0 ..< qlen])
                        [0 ..< sc_n_heads s]) keyh (zip queryp queryh)
              in case apply_mask s' bs qlen klen e of
                   Inl err \<Rightarrow> Inl err
                 | Inr e' \<Rightarrow> Inr (e', s')))"

subsection \<open>Selection modes\<close>

text \<open>
  \<^bold>\<open>recursive\<close>.  For one batch element and head, \<open>p_choose\<close> is \<open>[qlen][klen]\<close> and
  \<open>aw_prev\<close> is \<open>[1][klen]\<close>.  The source allocates \<open>q\<close> with a single row
  (\<open>key.new_zeros(bs, H, 1, klen + 1)\<close>) and \<open>shifted_1mp_choose\<close> has a single row, and
  both are indexed with \<open>i:i + 1\<close>; the slices are modelled as they are.
\<close>

definition recursive_q :: "nat \<Rightarrow> nat \<Rightarrow> mat \<Rightarrow> mat \<Rightarrow> mat" where
  "recursive_q klen i shifted_1mp_choose aw_prev =
     fold (\<lambda>j q. assign_col i (j + 1)
                    (bc (+) (bc (*) (col j (slice1 i shifted_1mp_choose)) (col j (slice1 i q)))
                            (col j aw_prev)) q)
          [0 ..< klen] [replicate (klen + 1) 0]"

definition recursive_step :: "nat \<Rightarrow> mat \<Rightarrow> nat \<Rightarrow> mat \<Rightarrow> mat" where
  "recursive_step klen p_choose i aw_prev =
     (let shifted_1mp_choose =
            map (\<lambda>p. 1 # map (\<lambda>x. 1 - x) (butlast p)) (slice1 i p_choose);
          q = recursive_q klen i shifted_1mp_choose aw_prev
      in bc (map2 (*)) (slice1 i p_choose) (map tl (slice1 i q)))"

text \<open>The loop \<open>for i in range(qlen)\<close>: every step yields the next \<open>aw_prev\<close>, which is appended.\<close>

fun recursive_rows :: "nat \<Rightarrow> mat \<Rightarrow> nat list \<Rightarrow> mat \<Rightarrow> mat list" where
  "recursive_rows klen p_choose [] aw_prev = []"
| "recursive_rows klen p_choose (i # is) aw_prev =
     (let aw = recursive_step klen p_choose i aw_prev
      in aw # recursive_rows klen p_choose is aw)"

text \<open>\<open>torch.cat(alpha, dim=2) if qlen > 1 else alpha[-1]\<close>.\<close>

definition cat_rows :: "nat \<Rightarrow> mat list \<Rightarrow> mat" where
  "cat_rows qlen alphas = (if qlen > 1 then concat alphas else last alphas)"

definition mode_recursive :: "nat \<Rightarrow> nat \<Rightarrow> tensor4 \<Rightarrow> tensor4 \<Rightarrow> tensor4" where
  "mode_recursive qlen klen p_choose aw_prev =
     map2 (map2 (\<lambda>p aw. cat_rows qlen (recursive_rows klen p [0 ..< qlen] aw))) p_choose aw_prev"

text \<open>
  \<^bold>\<open>parallel\<close>.  \<open>x[..., s:] = 0\<close> with Python's slice start (negative counts from the end,
  anything beyond the end writes nothing).
\<close>

definition zero_from :: "int \<Rightarrow> row \<Rightarrow> row" where
  "zero_from s x =
     (let n = int (length x);
          s' = nat (if s < 0 then max 0 (n + s) else min s n)
      in take s' x @ replicate (length x - s') 0)"

definition parallel_step :: "bool \<Rightarrow> real \<Rightarrow> int option \<Rightarrow> mat \<Rightarrow> mat \<Rightarrow> nat \<Rightarrow> mat \<Rightarrow> mat" where
  "parallel_step no_denom eps cutoff p_choose cumprod_1mp_choose i aw_prev =
     (let quot = (if no_denom then map (map (\<lambda>a. a / 1)) aw_prev
                  else bc (map2 (/)) aw_prev
                         (map (map (\<lambda>c. clamp c eps 1)) (slice1 i cumprod_1mp_choose)));
          aw = bc (map2 (*))
                  (bc (map2 (*)) (slice1 i p_choose) (slice1 i cumprod_1mp_choose))
                  (map cumsum quot)
      in case cutoff of None \<Rightarrow> aw | Some s \<Rightarrow> map (zero_from s) aw)"

fun parallel_rows :: "bool \<Rightarrow> real \<Rightarrow> int option \<Rightarrow> mat \<Rightarrow> mat \<Rightarrow> nat list \<Rightarrow> mat \<Rightarrow> mat list" where
  "parallel_rows no_denom eps cutoff p_choose cp [] aw_prev = []"
| "parallel_rows no_denom eps cutoff p_choose cp (i # is) aw_prev =
     (let aw = parallel_step no_denom eps cutoff p_choose cp i aw_prev
      in aw # parallel_rows no_denom eps cutoff p_choose cp is aw)"

text \<open>
  \<open>trigger_point\<close> is \<open>[B]\<close>; with \<open>decot\<close> the positions from
  \<open>trigger_point[b] + lookahead + 1\<close> on are zeroed in every step.
\<close>

definition mode_parallel ::
    "bool \<Rightarrow> real \<Rightarrow> bool \<Rightarrow> int \<Rightarrow> int list option \<Rightarrow> nat \<Rightarrow> tensor4 \<Rightarrow> tensor4 \<Rightarrow> tensor4" where
  "mode_parallel no_denom eps decot lookahead trigger_point qlen p_choose aw_prev =
     map (\<lambda>b.
       (let cutoff = (case trigger_point of
                     None \<Rightarrow> None
                   | Some tp \<Rightarrow> if decot then Some (tp ! b + lookahead + 1) else None)
        in map2 (\<lambda>p aw.
             cat_rows qlen
               (parallel_rows no_denom eps cutoff p
                  (map (\<lambda>x. safe_cumprod (map (\<lambda>y. 1 - y) x) eps) p) [0 ..< qlen] aw))
             (p_choose ! b) (aw_prev ! b)))
       [0 ..< length p_choose]"

text \<open>
  Head dropout on \<open>alpha_masked\<close>; \<open>draws\<close> are the values of \<open>random.random()\<close>, one per
  head in the order of the loop.
\<close>

definition head_dropout :: "nat \<Rightarrow> real \<Rightarrow> bool \<Rightarrow> real list \<Rightarrow> tensor4 \<Rightarrow> tensor4" where
  "head_dropout n_heads_mono dropout_head training draws alpha =
     (if n_heads_mono > 1 \<and> dropout_head > 0 \<and> training then
        (let dropped = map (\<lambda>h. draws ! h < dropout_head) [0 ..< n_heads_mono];
             n_effective_heads = n_heads_mono - length (filter (\<lambda>d. d) dropped);
             masked = map (\<lambda>a. map2 (\<lambda>d ah. if d then map (map (\<lambda>_. 0)) ah else ah) dropped a) alpha
         in if n_effective_heads > 0
            then map (map (map (map (\<lambda>x. x * (real n_heads_mono / real n_effective_heads))))) masked
            else masked)
      else alpha)"

text \<open>
  \<^bold>\<open>hard\<close>, one batch element and head (\<open>qlen = 1\<close>): the energy row and the row of
  \<open>aw_prev\<close>.
\<close>

definition hard_row :: "row \<Rightarrow> row \<Rightarrow> row" where
  "hard_row e aw_prev =
     (let p_choose_i = map2 (*) (map (\<lambda>x. if sigmoid x \<ge> 1 / 2 then 1 else 0) e) (cumsum aw_prev)
      in map2 (*) p_choose_i (exclusive_cumprod (map (\<lambda>x. 1 - x) p_choose_i)))"

text \<open>
  Latency control.  \<open>vertical_latency\<close> is the local flag of the source, set to \<open>False\<close>
  and never changed.  \<open>nonzero\<close> gives the key indices of the nonzero entries of a row
  (\<open>x.nonzero()[:, -1]\<close>); \<open>min\<close> and \<open>max\<close> of an empty index tensor raise.
\<close>

definition vertical_latency :: bool where
  "vertical_latency = False"

definition nonzero :: "row \<Rightarrow> nat list" where
  "nonzero x = filter (\<lambda>j. x ! j \<noteq> 0) [0 ..< length x]"

definition index_min :: "nat list \<Rightarrow> error + nat" where
  "index_min xs = (case xs of [] \<Rightarrow> Inl RuntimeError | x # ys \<Rightarrow> Inr (fold min ys x))"

definition index_max :: "nat list \<Rightarrow> error + nat" where
  "index_max xs = (case xs of [] \<Rightarrow> Inl RuntimeError | x # ys \<Rightarrow> Inr (fold max ys x))"

text \<open>\<open>x[i] = v\<close> on a row, with Python's indexing: a negative index counts from the end.\<close>

definition set_item :: "row \<Rightarrow> int \<Rightarrow> real \<Rightarrow> error + row" where
  "set_item x i v =
     (let n = int (length x); j = (if i < 0 then n + i else i)
      in if 0 \<le> j \<and> j < n then Inr (x[nat j := v]) else Inl IndexError)"

text \<open>
  The key index that the body of the loop over the heads writes a one to, for the row of
  one head (\<open>None\<close>: the row is left as it is), and whether the row is reset before.
\<close>

definition latency_target ::
    "bool \<Rightarrow> int \<Rightarrow> int \<Rightarrow> nat \<Rightarrow> nat \<Rightarrow> row \<Rightarrow> error + (bool \<times> int) option" where
  "latency_target first_mma_layer eps_wait boundary_threshold leftmost rightmost x =
     (if sum_list x = 0 then
        (if first_mma_layer \<or> \<not> vertical_latency
         then Inr (Some (False, min (int rightmost) (int leftmost + eps_wait)))
         else if boundary_threshold < int (length x) - 1
              then Inr (Some (False, boundary_threshold)) else Inr None)
      else
        (case index_min (nonzero x) of
           Inl err \<Rightarrow> Inl err
         | Inr first \<Rightarrow>
             (if first_mma_layer \<or> \<not> vertical_latency
              then (if int first \<ge> int leftmost + eps_wait
                    then Inr (Some (True, int leftmost + eps_wait)) else Inr None)
              else (if int first > boundary_threshold
                    then Inr (Some (True, boundary_threshold)) else Inr None))))"

definition latency_head ::
    "bool \<Rightarrow> int \<Rightarrow> int \<Rightarrow> nat \<Rightarrow> nat \<Rightarrow> row \<Rightarrow> error + row" where
  "latency_head first_mma_layer eps_wait boundary_threshold leftmost rightmost x =
     (case latency_target first_mma_layer eps_wait boundary_threshold leftmost rightmost x of
        Inl err \<Rightarrow> Inl err
      | Inr None \<Rightarrow> Inr x
      | Inr (Some (reset, i)) \<Rightarrow> set_item (if reset then map (\<lambda>_. 0) x else x) i 1)"

text \<open>\<open>for h in range(self.n_heads_mono)\<close>, on the rows \<open>alpha[b, :, 0]\<close>.\<close>

fun latency_heads :: "(row \<Rightarrow> error + row) \<Rightarrow> nat list \<Rightarrow> row list \<Rightarrow> error + row list" where
  "latency_heads f [] xs = Inr xs"
| "latency_heads f (h # hs) xs =
     (if h < length xs
      then (case f (xs ! h) of Inl err \<Rightarrow> Inl err | Inr x \<Rightarrow> latency_heads f hs (xs[h := x]))
      else Inl IndexError)"

text \<open>
  \<open>boundary_threshold\<close> as the loop over the batch computes it; \<open>last_index\<close> is
  \<open>alpha.size(-1) - 1\<close>.
\<close>

definition boundary_threshold :: "int option \<Rightarrow> int \<Rightarrow> int \<Rightarrow> int" where
  "boundary_threshold boundary_rightmost eps_wait last_index =
     (if boundary_rightmost = None \<or> \<not> vertical_latency then last_index
      else min last_index (the boundary_rightmost + eps_wait))"

text \<open>The body of \<open>for b in range(bs)\<close>, on the rows \<open>alpha[b, :, 0]\<close> of one batch element.\<close>

definition latency_batch :: "nat \<Rightarrow> int \<Rightarrow> int option \<Rightarrow> row list \<Rightarrow> error + row list" where
  "latency_batch n_heads_mono eps_wait boundary_rightmost xs =
     (let last_index = int (size1 xs) - 1;
          first_mma_layer = (boundary_rightmost = None);
          threshold = boundary_threshold boundary_rightmost eps_wait last_index
      in if sum_list (map sum_list xs) = 0 then
           (if vertical_latency \<and> threshold < last_index
            then sequence (map (\<lambda>x. set_item x threshold 1) xs)
            else Inr xs)
         else
           (case index_min (concat (map nonzero xs)) of
              Inl err \<Rightarrow> Inl err
            | Inr leftmost \<Rightarrow>
                (case index_max (concat (map nonzero xs)) of
                   Inl err \<Rightarrow> Inl err
                 | Inr rightmost \<Rightarrow>
                     latency_heads
                       (latency_head first_mma_layer eps_wait threshold leftmost rightmost)
                       [0 ..< n_heads_mono] xs)))"

text \<open>
  \<open>alpha\<close> of the hard mode before the latency control, as the rows \<open>alpha[b, :, 0]\<close> of
  every batch element (\<open>[B][H][klen]\<close>).
\<close>

definition hard_alpha :: "tensor4 \<Rightarrow> tensor4 \<Rightarrow> mat list" where
  "hard_alpha e_mono aw_prev = map2 (map2 (\<lambda>e aw. hard_row (e ! 0) (aw ! 0))) e_mono aw_prev"

text \<open>
  The hard mode: \<open>assert qlen == 1\<close>, the selection, and with \<open>eps_wait > 0\<close> the latency
  control of every batch element in turn.
\<close>

definition mode_hard ::
    "nat \<Rightarrow> int \<Rightarrow> int option \<Rightarrow> nat \<Rightarrow> tensor4 \<Rightarrow> tensor4 \<Rightarrow> error + tensor4" where
  "mode_hard n_heads_mono eps_wait boundary_rightmost qlen e_mono aw_prev =
     (if qlen \<noteq> 1 then Inl AssertionError
      else
        (let alpha = hard_alpha e_mono aw_prev
         in case (if eps_wait > 0
                  then sequence (map (latency_batch n_heads_mono eps_wait boundary_rightmost) alpha)
                  else Inr alpha) of
              Inl err \<Rightarrow> Inl err
            | Inr alpha' \<Rightarrow> Inr (map (map (\<lambda>x. [x])) alpha')))"

subsection \<open>Chunkwise attention\<close>

text \<open>
  \<open>efficient_chunkwise_attention\<close> on one row of \<open>alpha\<close> and one row of the chunk energy:
  the logits are shifted by their maximum, exponentiated and clamped from below at
  \<open>1e-5\<close>; the denominators and the sums of \<open>alpha * sharpening_factor / denominators\<close>
  are moving sums.
\<close>

definition chunk_row :: "int \<Rightarrow> real \<Rightarrow> row \<Rightarrow> row \<Rightarrow> row" where
  "chunk_row chunk_size sharpening_factor alpha e =
     (let klen = length alpha;
          softmax_exp = map (\<lambda>x. max (exp (x - Max (set e))) (1 / 100000)) e
      in if chunk_size = - 1 then
           (let softmax_denominators = cumsum softmax_exp
            in map2 (*) softmax_exp
                 (moving_sum (map2 (\<lambda>a d. a * sharpening_factor / d) alpha softmax_denominators)
                    0 (klen - 1)))
         else
           (let softmax_denominators = moving_sum softmax_exp (nat (chunk_size - 1)) 0
            in map2 (*) softmax_exp
                 (moving_sum (map2 (\<lambda>a d. a * sharpening_factor / d) alpha softmax_denominators)
                    0 (nat (chunk_size - 1)))))"

text \<open>\<open>x.view(-1, n, klen)\<close> on a list of rows: consecutive groups of \<open>n\<close> rows.\<close>

definition regroup :: "nat \<Rightarrow> 'a list \<Rightarrow> 'a list list" where
  "regroup n xs = map (\<lambda>g. take n (drop (g * n) xs)) [0 ..< length xs div n]"

text \<open>
  The function on one batch element: \<open>alpha\<close> is \<open>[H_mono][qlen][klen]\<close> and \<open>e\<close> is
  \<open>[H_chunk][qlen][klen]\<close>.  \<open>alpha\<close> gets an axis for the chunk heads (repeated
  \<open>n_heads\<close> times when \<open>n_heads > 1\<close>) and \<open>e\<close> one for the monotonic heads; the result is
  viewed as \<open>[-1][qlen][klen]\<close> with the \<open>qlen\<close> of \<open>alpha\<close>.  The argument \<open>mask\<close> of
  the source is not used by it and is left out; a \<open>chunk_len_dist\<close> is refused.
\<close>

definition efficient_chunkwise_attention ::
    "tensor4 \<Rightarrow> tensor4 \<Rightarrow> int \<Rightarrow> nat \<Rightarrow> real \<Rightarrow> int list list list option \<Rightarrow> error + tensor4" where
  "efficient_chunkwise_attention alpha e chunk_size n_heads sharpening_factor chunk_len_dist =
     (if chunk_len_dist \<noteq> None then Inl NotImplementedError
      else Inr (map2 (\<lambda>ab eb.
             regroup (size1 ab)
               (concat (concat (map (\<lambda>ah.
                  bc (bc (chunk_row chunk_size sharpening_factor))
                     (if n_heads > 1 then replicate n_heads ah else [ah]) eb) ab))))
             alpha e))"

text \<open>
  \<open>nn.Dropout(p)\<close> on \<open>beta\<close>: in training every entry is kept or zeroed as \<open>keep\<close> says
  (the random draw), and the kept ones are scaled by \<open>1 / (1 - p)\<close>.
\<close>

definition dropout :: "real \<Rightarrow> bool \<Rightarrow> bool list list list list \<Rightarrow> tensor4 \<Rightarrow> tensor4" where
  "dropout p training keep x =
     (if training \<and> p > 0
      then map2 (map2 (map2 (map2 (\<lambda>y k. if k then y / (1 - p) else 0)))) x keep
      else x)"

subsection \<open>The MoChA module\<close>

definition matmul :: "mat \<Rightarrow> mat \<Rightarrow> mat" where
  "matmul a b = map (\<lambda>x. map (\<lambda>d. sum_list (map2 (*) x (col d b))) [0 ..< size1 b]) a"

text \<open>
  The fields of \<open>MoChA\<close>.  \<open>mo_w_value\<close> and \<open>mo_w_out\<close> are the \<open>nn.Linear\<close> layers of
  the multi-head case; \<open>mo_dropout\<close> is the probability of \<open>self.dropout\<close> and
  \<open>mo_training\<close> is \<open>self.training\<close>.
\<close>

record mocha =
  mo_chunk_size :: int
  mo_milk :: bool
  mo_n_heads_mono :: nat
  mo_n_heads_chunk :: nat
  mo_d_k :: nat
  mo_eps :: real
  mo_noise_std :: real
  mo_no_denom :: bool
  mo_sharpening_factor :: real
  mo_decot :: bool
  mo_lookahead :: int
  mo_monotonic_energy :: scorer
  mo_chunk_energy :: "scorer option"
  mo_w_value :: "real list \<Rightarrow> real list"
  mo_w_out :: "real list \<Rightarrow> real list"
  mo_dropout :: real
  mo_dropout_head :: real
  mo_training :: bool

text \<open>
  The constructors.  The layers are created by the source with random weights; here they
  are arguments.  \<open>MonotonicEnergy\<close> checks the kernel size of the convolution (which
  \<open>MoChA\<close> never passes, so it is the default 5), that \<open>adim\<close> is a multiple of the number
  of heads, and \<open>atype\<close>.
\<close>

record layers =
  l_w_key :: "real list \<Rightarrow> real list"
  l_w_query :: "real list \<Rightarrow> real list"
  l_v :: "real list \<Rightarrow> real list"
  l_conv1d :: "mat \<Rightarrow> mat"

definition MonotonicEnergy_init ::
    "nat \<Rightarrow> string \<Rightarrow> nat \<Rightarrow> real \<Rightarrow> bool \<Rightarrow> nat \<Rightarrow> layers \<Rightarrow> error + scorer" where
  "MonotonicEnergy_init adim atype n_heads init_r use_conv1d conv_kernel_size ls =
     (if conv_kernel_size mod 2 \<noteq> 1 then Inl AssertionError
      else if n_heads = 0 then Inl ZeroDivisionError
      else if adim mod n_heads \<noteq> 0 then Inl AssertionError
      else if atype \<noteq> ''add'' \<and> atype \<noteq> ''scaled_dot'' then Inl NotImplementedError
      else Inr \<lparr>sc_atype = atype, sc_n_heads = n_heads, sc_d_k = adim div n_heads,
                sc_scale = sqrt (real adim), sc_w_key = l_w_key ls, sc_w_query = l_w_query ls,
                sc_v = l_v ls, sc_r = Some init_r,
                sc_conv1d_layer = (if use_conv1d then Some (l_conv1d ls) else None),
                sc_key_cache = None, sc_mask_cache = None\<rparr>)"

definition ChunkEnergy_init :: "nat \<Rightarrow> string \<Rightarrow> nat \<Rightarrow> layers \<Rightarrow> error + scorer" where
  "ChunkEnergy_init adim atype n_heads ls =
     (if n_heads = 0 then Inl ZeroDivisionError
      else if adim mod n_heads \<noteq> 0 then Inl AssertionError
      else if atype \<noteq> ''add'' \<and> atype \<noteq> ''scaled_dot'' then Inl NotImplementedError
      else Inr \<lparr>sc_atype = atype, sc_n_heads = n_heads, sc_d_k = adim div n_heads,
                sc_scale = sqrt (real adim), sc_w_key = l_w_key ls, sc_w_query = l_w_query ls,
                sc_v = l_v ls, sc_r = None, sc_conv1d_layer = None,
                sc_key_cache = None, sc_mask_cache = None\<rparr>)"

record mocha_args =
  a_adim :: nat
  a_atype :: string
  a_chunk_size :: int
  a_n_heads_mono :: nat
  a_n_heads_chunk :: nat
  a_conv1d :: bool
  a_init_r :: real
  a_eps :: real
  a_noise_std :: real
  a_no_denominator :: bool
  a_sharpening_factor :: real
  a_dropout :: real
  a_dropout_head :: real
  a_decot :: bool
  a_lookahead :: int

definition MoChA_init ::
    "mocha_args \<Rightarrow> layers \<Rightarrow> layers \<Rightarrow> (real list \<Rightarrow> real list) \<Rightarrow> (real list \<Rightarrow> real list) \<Rightarrow> bool
     \<Rightarrow> error + mocha" where
  "MoChA_init a mono_layers chunk_layers w_value w_out training =
     (if a_n_heads_mono a * a_n_heads_chunk a = 0 then Inl ZeroDivisionError
      else if a_adim a mod (a_n_heads_mono a * a_n_heads_chunk a) \<noteq> 0 then Inl AssertionError
      else
        (let milk = (a_chunk_size a = - 1)
         in case MonotonicEnergy_init (a_adim a) (a_atype a) (a_n_heads_mono a) (a_init_r a)
                   (a_conv1d a) 5 mono_layers of
              Inl err \<Rightarrow> Inl err
            | Inr me \<Rightarrow>
                (case (if a_chunk_size a > 1 \<or> milk
                       then (case ChunkEnergy_init (a_adim a) (a_atype a) (a_n_heads_chunk a)
                                    chunk_layers of
                               Inl err \<Rightarrow> Inl err
                             | Inr ce \<Rightarrow> Inr (Some ce))
                       else Inr None) of
                   Inl err \<Rightarrow> Inl err
                 | Inr ce \<Rightarrow>
                     Inr \<lparr>mo_chunk_size = a_chunk_size a, mo_milk = milk,
                          mo_n_heads_mono = a_n_heads_mono a,
                          mo_n_heads_chunk = a_n_heads_chunk a,
                          mo_d_k = a_adim a div (a_n_heads_mono a * a_n_heads_chunk a),
                          mo_eps = a_eps a, mo_noise_std = a_noise_std a,
                          mo_no_denom = a_no_denominator a,
                          mo_sharpening_factor = a_sharpening_factor a,
                          mo_decot = a_decot a, mo_lookahead = a_lookahead a,
                          mo_monotonic_energy = me, mo_chunk_energy = ce,
                          mo_w_value = w_value, mo_w_out = w_out,
                          mo_dropout = a_dropout a, mo_dropout_head = a_dropout_head a,
                          mo_training = training\<rparr>)))"

text \<open>\<open>reset\<close>: both scorers drop their caches.\<close>

definition reset :: "mocha \<Rightarrow> mocha" where
  "reset m = m\<lparr>mo_monotonic_energy := reset_scorer (mo_monotonic_energy m),
               mo_chunk_energy := map_option reset_scorer (mo_chunk_energy m)\<rparr>"

text \<open>
  The random draws of one call of \<open>forward\<close>: the Gaussian noise added to the monotonic
  energy (\<open>[B][H_mono][qlen][klen]\<close>), the values of \<open>random.random()\<close> of the head
  dropout, and the entries of \<open>beta\<close> that \<open>self.dropout\<close> keeps.
\<close>

record draws =
  dr_noise :: tensor4
  dr_head :: "real list"
  dr_keep :: "bool list list list list"

text \<open>\<open>aw_prev = [1, 0, 0 ... 0]\<close> when the argument is \<open>None\<close>.\<close>

definition default_aw_prev :: "nat \<Rightarrow> nat \<Rightarrow> nat \<Rightarrow> tensor4" where
  "default_aw_prev bs h klen = replicate bs (replicate h [(replicate klen 0)[0 := 1]])"

text \<open>
  The selection of \<open>alpha\<close> and \<open>alpha_masked\<close> by \<open>mode\<close>.  An empty list of queries
  makes \<open>alpha[-1]\<close> fail in the soft modes.
\<close>

definition select_alpha ::
    "mocha \<Rightarrow> string \<Rightarrow> nat \<Rightarrow> nat \<Rightarrow> tensor4 \<Rightarrow> tensor4 \<Rightarrow> int list option \<Rightarrow> int \<Rightarrow> int option
     \<Rightarrow> draws \<Rightarrow> error + tensor4 \<times> tensor4" where
  "select_alpha m mode qlen klen e_mono aw_prev trigger_point eps_wait boundary_rightmost rnd =
     (if mode = ''recursive'' then
        (if qlen = 0 then Inl IndexError
         else
           (let p_choose = map2 (map2 (map2 (map2 (\<lambda>x n. torch_sigmoid (x + n))))) e_mono (dr_noise rnd);
                alpha = mode_recursive qlen klen p_choose aw_prev
            in Inr (alpha, alpha)))
      else if mode = ''parallel'' then
        (if qlen = 0 then Inl IndexError
         else
           (let p_choose = map2 (map2 (map2 (map2 (\<lambda>x n. torch_sigmoid (x + n))))) e_mono (dr_noise rnd);
                alpha = mode_parallel (mo_no_denom m) (mo_eps m) (mo_decot m) (mo_lookahead m)
                          trigger_point qlen p_choose aw_prev
            in Inr (alpha, head_dropout (mo_n_heads_mono m) (mo_dropout_head m) (mo_training m)
                             (dr_head rnd) alpha)))
      else if mode = ''hard'' then
        (case mode_hard (mo_n_heads_mono m) eps_wait boundary_rightmost qlen e_mono aw_prev of
           Inl err \<Rightarrow> Inl err
         | Inr alpha \<Rightarrow> Inr (alpha, alpha))
      else Inl ValueError)"

text \<open>
  The chunk energy and \<open>beta\<close>: only when \<open>chunk_size > 1\<close> or \<open>milk\<close>.  A module built by
  the constructor has a chunk scorer exactly then; calling the missing scorer is a
  \<open>TypeError\<close>.
\<close>

definition chunk_stage ::
    "mocha \<Rightarrow> tensor4 \<Rightarrow> mat list \<Rightarrow> mat list \<Rightarrow> bool list list list option \<Rightarrow> bool \<Rightarrow> draws
     \<Rightarrow> error + tensor4 option \<times> scorer option" where
  "chunk_stage m alpha_masked key query msk cache rnd =
     (if mo_chunk_size m > 1 \<or> mo_milk m then
        (case mo_chunk_energy m of
           None \<Rightarrow> Inl TypeError
         | Some ce \<Rightarrow>
             (case ChunkEnergy_forward ce key query msk cache of
                Inl err \<Rightarrow> Inl err
              | Inr (e_chunk, ce') \<Rightarrow>
                  (case efficient_chunkwise_attention alpha_masked e_chunk (mo_chunk_size m)
                          (mo_n_heads_chunk m) (mo_sharpening_factor m) None of
                     Inl err \<Rightarrow> Inl err
                   | Inr beta \<Rightarrow>
                       Inr (Some (dropout (mo_dropout m) (mo_training m) (dr_keep rnd) beta),
                            Some ce'))))
      else Inr (None, mo_chunk_energy m))"

text \<open>
  The context vector of one batch element from the weights \<open>w\<close> (\<open>alpha\<close> or \<open>beta\<close> of
  that element, a list of heads) and its values.  With several heads, \<open>torch.matmul\<close>
  broadcasts the head axes (equal, or one of them of size one); with a single head,
  \<open>squeeze(1)\<close> removes the head axis only when its size is one, and \<open>torch.bmm\<close>
  refuses anything else.
\<close>

definition context_b :: "mocha \<Rightarrow> mat list \<Rightarrow> mat \<Rightarrow> error + mat" where
  "context_b m w value =
     (if mo_n_heads_mono m * mo_n_heads_chunk m > 1 then
        (let value_h = split_heads (mo_n_heads_mono m * mo_n_heads_chunk m) (mo_d_k m)
                         (map (mo_w_value m) value)
         in if length w = length value_h \<or> length w = 1 \<or> length value_h = 1 then
              (let cv = bc matmul w value_h
               in Inr (map (\<lambda>i. mo_w_out m (concat (map (\<lambda>c. c ! i) cv))) [0 ..< size1 cv]))
            else Inl RuntimeError)
      else
        (if length w = 1 then Inr (matmul (w ! 0) value) else Inl RuntimeError))"

definition context_vector :: "mocha \<Rightarrow> tensor4 \<Rightarrow> tensor4 option \<Rightarrow> mat list \<Rightarrow> error + mat list" where
  "context_vector m alpha beta value =
     (if mo_chunk_size m = 1 then sequence (map2 (context_b m) alpha value)
      else (case beta of
              None \<Rightarrow> Inl TypeError
            | Some b \<Rightarrow> sequence (map2 (context_b m) b value)))"

text \<open>
  \<open>MoChA.forward\<close>.  The result is the triple \<open>(cv, alpha, beta)\<close> and the module with the
  caches of its scorers as the call leaves them; \<open>rnd\<close> are the random draws of the call.
\<close>

definition MoChA_forward ::
    "mocha \<Rightarrow> mat list \<Rightarrow> mat list \<Rightarrow> mat list \<Rightarrow> bool list list list option \<Rightarrow> tensor4 option
     \<Rightarrow> string \<Rightarrow> bool \<Rightarrow> int list option \<Rightarrow> int \<Rightarrow> int option \<Rightarrow> draws
     \<Rightarrow> error + (mat list \<times> tensor4 \<times> tensor4 option) \<times> mocha" where
  "MoChA_forward m key value query msk aw_prev mode cache trigger_point eps_wait boundary_rightmost rnd =
     (let bs = length key; klen = size1 key; qlen = size1 query;
          aw_prev' = (case aw_prev of
                        None \<Rightarrow> default_aw_prev bs (mo_n_heads_mono m) klen
                      | Some aw \<Rightarrow> aw)
      in case MonotonicEnergy_forward (mo_monotonic_energy m) key query msk cache of
           Inl err \<Rightarrow> Inl err
         | Inr (e_mono, me') \<Rightarrow>
             (case select_alpha m mode qlen klen e_mono aw_prev' trigger_point eps_wait
                     boundary_rightmost rnd of
                Inl err \<Rightarrow> Inl err
              | Inr (alpha, alpha_masked) \<Rightarrow>
                  (case chunk_stage m alpha_masked key query msk cache rnd of
                     Inl err \<Rightarrow> Inl err
                   | Inr (beta, ce') \<Rightarrow>
                       (case context_vector m alpha beta value of
                          Inl err \<Rightarrow> Inl err
                        | Inr cv \<Rightarrow>
                            if \<not> has_shape4 bs (mo_n_heads_mono m) qlen klen alpha
                            then Inl AssertionError
                            else if (mo_chunk_size m > 1 \<or> mo_milk m) \<and>
                                    \<not> has_shape4 bs (mo_n_heads_mono m * mo_n_heads_chunk m)
                                         qlen klen (the beta)
                            then Inl AssertionError
                            else Inr ((cv, alpha, beta),
                                      m\<lparr>mo_monotonic_energy := me', mo_chunk_energy := ce'\<rparr>)))))"

subsection \<open>Notions used by the statements\<close>

text \<open>The row of length \<open>n\<close> that is one at \<open>t\<close> and zero elsewhere.\<close>

definition one_hot :: "nat \<Rightarrow> nat \<Rightarrow> row" where
  "one_hot n t = (replicate n 0)[t := 1]"

text \<open>A row that is a one-hot vector or all zero: entries zero or one, at most one of them one.\<close>

definition one_hot_or_zero :: "row \<Rightarrow> bool" where
  "one_hot_or_zero x = (list_all (\<lambda>y. y = 0 \<or> y = 1) x \<and> sum_list x \<le> 1)"

text \<open>A row of nonnegative weights that sum to at most one.\<close>

definition sub_distribution :: "row \<Rightarrow> bool" where
  "sub_distribution x = (list_all (\<lambda>y. 0 \<le> y) x \<and> sum_list x \<le> 1)"

text \<open>
  The first key index from \<open>s\<close> on whose choose indicator is set, that is where the
  sigmoid of the energy reaches \<open>0.5\<close>.
\<close>

definition first_choose_from :: "nat \<Rightarrow> row \<Rightarrow> nat option" where
  "first_choose_from s e = find (\<lambda>j. s \<le> j \<and> sigmoid (e ! j) \<ge> 1 / 2) [0 ..< length e]"

text \<open>
  The recurrence that the recursive mode runs for one query: \<open>q\<^sub>0 = 0\<close> and
  \<open>q\<^bsub>j+1\<^esub> = shifted\<^sub>j * q\<^sub>j + aw_prev\<^sub>j\<close> with
  \<open>shifted = [1, 1 - p\<^sub>0, 1 - p\<^sub>1, ...]\<close>.
\<close>

fun monotonic_q :: "row \<Rightarrow> row \<Rightarrow> nat \<Rightarrow> real" where
  "monotonic_q p a 0 = 0"
| "monotonic_q p a (Suc j) =
     (if j = 0 then 1 else 1 - p ! (j - 1)) * monotonic_q p a j + a ! j"


text \<open>
  The weighted sum of the value vectors \<open>vs\<close> (\<open>[klen][vdim]\<close>) under the weights \<open>w\<close> of
  one query: component \<open>d\<close> is the sum over the keys \<open>j\<close> of \<open>w\<^sub>j * vs\<^sub>j[d]\<close>.
\<close>

definition weighted_sum :: "row \<Rightarrow> mat \<Rightarrow> real list" where
  "weighted_sum w vs = map (\<lambda>d. (\<Sum>j<length vs. w ! j * vs ! j ! d)) [0 ..< size1 vs]"

text \<open>
  A mask row of a right-padded batch: the valid key positions come first, and every
  position after the first invalid one is invalid.
\<close>

definition valid_prefix :: "bool list \<Rightarrow> bool" where
  "valid_prefix v = list_all (\<lambda>x. \<not> x) (dropWhile (\<lambda>x. x) v)"

text \<open>
  The cache of a scorer is the one of this key and mask: the cached key has the batch
  size, the heads and the \<open>klen\<close> of \<open>key\<close>, and the cached mask is \<open>mask\<close> repeated over
  the heads.
\<close>

definition cache_of :: "scorer \<Rightarrow> mat list \<Rightarrow> bool list list list \<Rightarrow> bool" where
  "cache_of s key msk =
     ((case sc_key_cache s of
         None \<Rightarrow> False
       | Some kc \<Rightarrow> length kc = length key \<and>
           list_all (\<lambda>kb. length kb = sc_n_heads s \<and> list_all (\<lambda>kh. length kh = size1 key) kb) kc) \<and>
      sc_mask_cache s = Some (map (\<lambda>mb. replicate (sc_n_heads s) mb) msk))"

subsection \<open>A module for the examples\<close>

text \<open>
  A single-head \<open>scaled_dot\<close> module with \<open>chunk_size = 1\<close>, one-dimensional keys and
  queries, identity layers and the default \<open>init_r = -4\<close>: the monotonic energy of key
  \<open>k\<close> under query \<open>q\<close> is \<open>q * k - 4\<close>.
\<close>

definition example_args :: mocha_args where
  "example_args =
     \<lparr>a_adim = 1, a_atype = ''scaled_dot'', a_chunk_size = 1, a_n_heads_mono = 1,
      a_n_heads_chunk = 1, a_conv1d = False, a_init_r = - 4, a_eps = 1 / 1000000,
      a_noise_std = 1, a_no_denominator = False, a_sharpening_factor = 1, a_dropout = 0,
      a_dropout_head = 0, a_decot = False, a_lookahead = 2\<rparr>"

definition identity_layers :: layers where
  "identity_layers =
     \<lparr>l_w_key = (\<lambda>x. x), l_w_query = (\<lambda>x. x), l_v = (\<lambda>x. x), l_conv1d = (\<lambda>x. x)\<rparr>"

definition example_module :: mocha where
  "example_module =
     projr (MoChA_init example_args identity_layers identity_layers (\<lambda>x. x) (\<lambda>x. x) False)"

text \<open>
  A module with two monotonic heads of the \<open>'add'\<close> type, \<open>adim = 2\<close> and again identity
  layers: the energy of head \<open>h\<close> for key \<open>k\<close> under query \<open>q\<close> is
  \<open>relu(k[h] + q[h]) - 4\<close>.
\<close>

definition two_head_module :: mocha where
  "two_head_module =
     projr (MoChA_init (example_args\<lparr>a_adim := 2, a_atype := ''add'', a_n_heads_mono := 2\<rparr>)
              identity_layers identity_layers (\<lambda>x. x) (\<lambda>x. x) False)"

text \<open>The single-head module again, with \<open>chunk_size = 2\<close>: it has a chunk scorer.\<close>

definition chunk_module :: mocha where
  "chunk_module =
     projr (MoChA_init (example_args\<lparr>a_chunk_size := 2\<rparr>)
              identity_layers identity_layers (\<lambda>x. x) (\<lambda>x. x) False)"

definition no_draws :: draws where
  "no_draws = \<lparr>dr_noise = [], dr_head = [], dr_keep = []\<rparr>"

section \<open>Properties of the numeric primitives\<close>

lemma length_cumsum_from [simp]: "length (cumsum_from acc xs) = length xs"
  by (induction xs arbitrary: acc) simp_all

lemma length_cumprod_from [simp]: "length (cumprod_from acc xs) = length xs"
  by (induction xs arbitrary: acc) simp_all

lemma length_cumsum [simp]: "length (cumsum xs) = length xs"
  by (simp add: cumsum_def)

lemma length_cumprod [simp]: "length (cumprod xs) = length xs"
  by (simp add: cumprod_def)

lemma cumsum_from_nth:
  "j < length xs \<Longrightarrow> cumsum_from acc xs ! j = acc + (\<Sum>k\<le>j. xs ! k)"
proof (induction xs arbitrary: acc j)
  case Nil
  then show ?case by simp
next
  case (Cons x xs)
  show ?case
  proof (cases j)
    case 0
    then show ?thesis by simp
  next
    case (Suc i)
    with Cons.prems have "i < length xs" by simp
    have "(\<Sum>k\<le>Suc i. (x # xs) ! k) = x + (\<Sum>k\<le>i. xs ! k)"
      by (simp add: sum.atMost_Suc_shift del: sum.atMost_Suc)
    with Cons.IH [OF \<open>i < length xs\<close>, of "acc + x"] Suc
    show ?thesis by (simp del: sum.atMost_Suc)
  qed
qed

lemma cumsum_nth: "j < length xs \<Longrightarrow> cumsum xs ! j = (\<Sum>k\<le>j. xs ! k)"
  by (simp add: cumsum_def cumsum_from_nth)

lemma cumprod_from_nth:
  "j < length xs \<Longrightarrow> cumprod_from acc xs ! j = acc * (\<Prod>k\<le>j. xs ! k)"
proof (induction xs arbitrary: acc j)
  case Nil
  then show ?case by simp
next
  case (Cons x xs)
  show ?case
  proof (cases j)
    case 0
    then show ?thesis by simp
  next
    case (Suc i)
    with Cons.prems have "i < length xs" by simp
    have "(\<Prod>k\<le>Suc i. (x # xs) ! k) = x * (\<Prod>k\<le>i. xs ! k)"
      by (simp add: prod.atMost_Suc_shift del: prod.atMost_Suc)
    with Cons.IH [OF \<open>i < length xs\<close>, of "acc * x"] Suc
    show ?thesis by (simp del: prod.atMost_Suc)
  qed
qed

lemma cumprod_nth: "j < length xs \<Longrightarrow> cumprod xs ! j = (\<Prod>k\<le>j. xs ! k)"
  by (simp add: cumprod_def cumprod_from_nth)

lemma exp_cumsum_from:
  "map exp (cumsum_from acc ys) = cumprod_from (exp acc) (map exp ys)"
  by (induction ys arbitrary: acc) (simp_all add: exp_add)

lemma clamp_bounds: "0 < eps \<Longrightarrow> 0 < clamp v eps 1 \<and> clamp v eps 1 \<le> 1"
  by (auto simp: clamp_def min_def max_def)

lemma map_exp_ln_pos: "\<forall>y\<in>set ys. (0::real) < y \<Longrightarrow> map exp (map ln ys) = ys"
  by (induction ys) simp_all

lemma safe_cumprod_eq:
  assumes "0 < eps"
  shows "safe_cumprod x eps = exclusive_cumprod (map (\<lambda>v. clamp v eps 1) x)"
proof -
  let ?c = "map (\<lambda>v. clamp v eps 1) x"
  have pos: "\<forall>y\<in>set (butlast ?c). 0 < y"
    using clamp_bounds [OF assms] by (auto dest!: in_set_butlastD)
  have "safe_cumprod x eps = cumprod_from (exp 0) (map exp (0 # butlast (map ln ?c)))"
    by (simp only: safe_cumprod_def exclusive_cumsum_def cumsum_def exp_cumsum_from)
  also have "map exp (0 # butlast (map ln ?c)) = 1 # map exp (map ln (butlast ?c))"
    by (simp add: map_butlast)
  also have "\<dots> = 1 # butlast ?c"
    using map_exp_ln_pos [OF pos] by simp
  finally show ?thesis
    by (simp add: exclusive_cumprod_def cumprod_def)
qed

lemma cumprod_from_nonincreasing:
  "0 \<le> acc \<Longrightarrow> \<forall>y\<in>set ys. 0 \<le> y \<and> y \<le> 1 \<Longrightarrow>
   sorted_wrt (\<lambda>a b. b \<le> a) (acc # cumprod_from acc ys) \<and>
   (\<forall>z\<in>set (cumprod_from acc ys). 0 \<le> z)"
proof (induction ys arbitrary: acc)
  case Nil
  then show ?case by simp
next
  case (Cons y ys)
  from Cons.prems have y: "0 \<le> y" "y \<le> 1" by simp_all
  from Cons.prems(1) y have a: "0 \<le> acc * y" "acc * y \<le> acc"
    by (simp_all add: mult_left_le)
  from Cons.IH [OF a(1)] Cons.prems
  have ih: "sorted_wrt (\<lambda>a b. b \<le> a) ((acc * y) # cumprod_from (acc * y) ys)"
    and nn: "\<forall>z\<in>set (cumprod_from (acc * y) ys). 0 \<le> z"
    by simp_all
  from ih have "\<forall>z\<in>set (cumprod_from (acc * y) ys). z \<le> acc * y" by simp
  with a(2) have "\<forall>z\<in>set (cumprod_from (acc * y) ys). z \<le> acc" by force
  with ih a nn show ?case by simp
qed

subsection \<open>The moving sum\<close>

lemma sum_list_take_drop_nth:
  "j + k \<le> length (p::real list) \<Longrightarrow> sum_list (take k (drop j p)) = (\<Sum>t<k. p ! (j + t))"
proof -
  assume a: "j + k \<le> length p"
  have "sum_list (take k (drop j p)) = (\<Sum>t<length (take k (drop j p)). take k (drop j p) ! t)"
    by (simp only: sum_list_sum_nth atLeast0LessThan)
  also have "length (take k (drop j p)) = k" using a by simp
  also have "(\<Sum>t<k. take k (drop j p) ! t) = (\<Sum>t<k. p ! (j + t))"
    using a by (intro sum.cong) simp_all
  finally show ?thesis .
qed

lemma sum_list_mult_ones:
  "length xs = k \<Longrightarrow> sum_list (map2 (*) xs (replicate k (1::real))) = sum_list xs"
proof (induction xs arbitrary: k)
  case Nil
  then show ?case by simp
next
  case (Cons x xs)
  then obtain k' where "k = Suc k'" "length xs = k'" by (cases k) auto
  with Cons.IH [of k'] show ?case by simp
qed

lemma padded_nth:
  "(replicate b (0::real) @ x @ replicate f 0) ! i =
     (if b \<le> i \<and> i < b + length x then x ! (i - b) else 0)"
  if "i < b + length x + f"
  using that by (auto simp: nth_append)

lemma moving_sum_nth:
  assumes "j < length x"
  shows "moving_sum x back forward ! j =
         (\<Sum>i = j - back ..< min (length x) (j + forward + 1). x ! i)"
proof -
  let ?p = "replicate back (0::real) @ x @ replicate forward 0"
  let ?K = "back + forward + 1"
  have len: "length ?p = back + length x + forward" by simp
  have jK: "j + ?K \<le> length ?p" using assms by simp
  have "moving_sum x back forward ! j = sum_list (map2 (*) (take ?K (drop j ?p)) (replicate ?K 1))"
    using assms by (simp add: moving_sum_def conv1d_def Let_def)
  also have "\<dots> = sum_list (take ?K (drop j ?p))"
    using jK by (intro sum_list_mult_ones) simp
  also have "\<dots> = (\<Sum>t<?K. ?p ! (j + t))"
    using jK by (rule sum_list_take_drop_nth)
  also have "\<dots> = (\<Sum>t<?K. if back \<le> j + t \<and> j + t < back + length x then x ! (j + t - back) else 0)"
    using assms by (intro sum.cong refl padded_nth) simp
  also have "\<dots> = (\<Sum>t\<in>{t. t < ?K \<and> back \<le> j + t \<and> j + t < back + length x}. x ! (j + t - back))"
    by (subst sum.inter_filter [symmetric]) (auto intro: sum.cong)
  also have "\<dots> = (\<Sum>i = j - back ..< min (length x) (j + forward + 1). x ! i)"
    by (rule sum.reindex_bij_witness [where i = "\<lambda>i. i + back - j" and j = "\<lambda>t. j + t - back"]) auto
  finally show ?thesis .
qed

lemma naive_moving_sum_nth:
  "j < length x \<Longrightarrow> naive_moving_sum x back forward ! j =
         (\<Sum>i = j - back ..< min (length x) (j + forward + 1). x ! i)"
  by (simp add: naive_moving_sum_def interv_sum_list_conv_sum_set_nat)

lemma length_moving_sum: "x \<noteq> [] \<Longrightarrow> length (moving_sum x back forward) = length x"
  by (cases x) (simp_all add: moving_sum_def conv1d_def Let_def)

text \<open>
  Claim C6.  For every window given by nonnegative \<open>back\<close> and \<open>forward\<close> and every
  input row of length \<open>klen \<ge> 1\<close>, the convolution-based \<open>moving_sum\<close> is the naive
  sliding-window sum: position \<open>j\<close> holds the sum of the input over \<open>j - back\<close> through
  \<open>j + forward\<close>, clipped to the sequence.
\<close>

theorem moving_sum_equals_naive:
  assumes "x \<noteq> []"
  shows "moving_sum x back forward = naive_moving_sum x back forward"
proof (rule nth_equalityI)
  show "length (moving_sum x back forward) = length (naive_moving_sum x back forward)"
    using assms by (simp add: length_moving_sum naive_moving_sum_def)
next
  fix j assume "j < length (moving_sum x back forward)"
  with assms have "j < length x" by (simp add: length_moving_sum)
  then show "moving_sum x back forward ! j = naive_moving_sum x back forward ! j"
    by (simp only: moving_sum_nth naive_moving_sum_nth)
qed

theorem moving_sum_equals_naive_witness:
  "[1, 2, 3, 4] \<noteq> ([] :: real list) \<and>
   moving_sum [1, 2, 3, 4] 1 2 = naive_moving_sum [1, 2, 3, 4] 1 2 \<and>
   moving_sum [1, 2, 3, 4] 1 2 = [6, 10, 9, 7]"
  using moving_sum_equals_naive [of "[1, 2, 3, 4]" 1 2]
  by (simp add: naive_moving_sum_def upt_rec [of _ "numeral _"] upt_rec [of _ "Suc _"])

subsection \<open>The safe cumulative product\<close>

text \<open>
  Claim C7, as amended.  For \<open>eps > 0\<close> and every input row (in particular one with
  entries in \<open>[0, 1]\<close>), \<open>safe_cumprod(x, eps)\<close> is non-increasing along the key axis,
  and it is the exclusive cumulative product \<open>[1, c0, c0 * c1, ...]\<close> of the clamped
  entries, that is \<open>exp(exclusive_cumsum(log(clamp(x, eps, 1))))\<close>.
\<close>

theorem safe_cumprod_nonincreasing:
  assumes "0 < eps"
  shows "sorted_wrt (\<lambda>a b. b \<le> a) (safe_cumprod x eps) \<and>
         safe_cumprod x eps = exclusive_cumprod (map (\<lambda>v. clamp v eps 1) x)"
proof -
  let ?c = "map (\<lambda>v. clamp v eps 1) x"
  have eq: "safe_cumprod x eps = 1 # cumprod_from 1 (butlast ?c)"
    by (simp add: safe_cumprod_eq [OF assms] exclusive_cumprod_def cumprod_def)
  have "\<forall>y\<in>set (butlast ?c). 0 \<le> y \<and> y \<le> 1"
    using clamp_bounds [OF assms] by (auto dest!: in_set_butlastD simp: less_imp_le)
  with cumprod_from_nonincreasing [of 1 "butlast ?c"]
  have "sorted_wrt (\<lambda>a b. b \<le> a) (1 # cumprod_from 1 (butlast ?c))" by simp
  with eq show ?thesis by (simp add: safe_cumprod_eq [OF assms])
qed

theorem safe_cumprod_nonincreasing_witness:
  "(0::real) < 1 / 4 \<and>
   sorted_wrt (\<lambda>a b. b \<le> a) (safe_cumprod [1 / 2, 1 / 8, 1] (1 / 4)) \<and>
   safe_cumprod [1 / 2, 1 / 8, 1] (1 / 4) = [1, 1 / 2, 1 / 8]"
  using safe_cumprod_nonincreasing [of "1 / 4" "[1 / 2, 1 / 8, 1]"]
  by (simp add: exclusive_cumprod_def cumprod_def clamp_def)

text \<open>
  Claim C7 as stated compares with the inclusive \<open>exp(cumsum(log(clamp(x))))\<close>; on the
  one-element row \<open>[1/2]\<close> the source returns \<open>[1]\<close> and the inclusive formula \<open>[1/2]\<close>.
\<close>

theorem safe_cumprod_inclusive_counterexample:
  "safe_cumprod [1 / 2] (1 / 1000000) \<noteq>
   map exp (cumsum (map ln (map (\<lambda>v. clamp v (1 / 1000000) 1) [1 / 2])))"
  by (simp add: safe_cumprod_def exclusive_cumsum_def cumsum_def clamp_def)

section \<open>The energy scorer and its cache\<close>

lemma precompute_cached:
  "sc_key_cache s \<noteq> None \<Longrightarrow> precompute uc s key qlen msk True = Inr s"
  by (auto simp: precompute_def)

text \<open>
  Claim C9.  When \<open>MonotonicEnergy.forward\<close> is called with \<open>cache=True\<close> while a cached
  key exists, the result (the energy, and the scorer it leaves) does not depend on the
  \<open>mask\<close> argument of that call: the cached mask is the one applied.
\<close>

theorem cached_mask_ignored:
  assumes "sc_key_cache s \<noteq> None"
  shows "MonotonicEnergy_forward s key query m1 True = MonotonicEnergy_forward s key query m2 True"
  using assms by (simp add: MonotonicEnergy_forward_def precompute_cached)

theorem cached_mask_ignored_witness:
  "sc_key_cache \<lparr>sc_atype = ''scaled_dot'', sc_n_heads = 1, sc_d_k = 1, sc_scale = 1,
       sc_w_key = (\<lambda>x. x), sc_w_query = (\<lambda>x. x), sc_v = (\<lambda>x. x), sc_r = Some (- 4),
       sc_conv1d_layer = None, sc_key_cache = Some [[[[1], [2]]]],
       sc_mask_cache = Some [[[[True, False]]]]\<rparr> \<noteq> None \<and>
   MonotonicEnergy_forward \<lparr>sc_atype = ''scaled_dot'', sc_n_heads = 1, sc_d_k = 1, sc_scale = 1,
       sc_w_key = (\<lambda>x. x), sc_w_query = (\<lambda>x. x), sc_v = (\<lambda>x. x), sc_r = Some (- 4),
       sc_conv1d_layer = None, sc_key_cache = Some [[[[1], [2]]]],
       sc_mask_cache = Some [[[[True, False]]]]\<rparr>
     [[[1], [2]]] [[[1]]] (Some [[[True, True]]]) True =
   MonotonicEnergy_forward \<lparr>sc_atype = ''scaled_dot'', sc_n_heads = 1, sc_d_k = 1, sc_scale = 1,
       sc_w_key = (\<lambda>x. x), sc_w_query = (\<lambda>x. x), sc_v = (\<lambda>x. x), sc_r = Some (- 4),
       sc_conv1d_layer = None, sc_key_cache = Some [[[[1], [2]]]],
       sc_mask_cache = Some [[[[True, False]]]]\<rparr>
     [[[1], [2]]] [[[1]]] (Some [[[False, True]]]) True \<and>
   map_sum id fst (MonotonicEnergy_forward \<lparr>sc_atype = ''scaled_dot'', sc_n_heads = 1, sc_d_k = 1, sc_scale = 1,
       sc_w_key = (\<lambda>x. x), sc_w_query = (\<lambda>x. x), sc_v = (\<lambda>x. x), sc_r = Some (- 4),
       sc_conv1d_layer = None, sc_key_cache = Some [[[[1], [2]]]],
       sc_mask_cache = Some [[[[True, False]]]]\<rparr>
     [[[1], [2]]] [[[1]]] (Some [[[False, True]]]) True) = Inr [[[[- 3, NEG_INF]]]]"
  using cached_mask_ignored [of "\<lparr>sc_atype = ''scaled_dot'', sc_n_heads = 1, sc_d_k = 1, sc_scale = 1,
       sc_w_key = (\<lambda>x. x), sc_w_query = (\<lambda>x. x), sc_v = (\<lambda>x. x), sc_r = Some (- 4),
       sc_conv1d_layer = None, sc_key_cache = Some [[[[1], [2]]]],
       sc_mask_cache = Some [[[[True, False]]]]\<rparr>" "[[[1], [2]]]" "[[[1]]]" "Some [[[True, True]]]" "Some [[[False, True]]]"]
  by (simp add: MonotonicEnergy_forward_def precompute_def apply_mask_def masked_fill_def
      bmap2_def expand_to_def dot_def has_shape4_def split_heads_def size1_def)

section \<open>Hard mode\<close>

lemma sigmoid_ge_half: "sigmoid x \<ge> 1 / 2 \<longleftrightarrow> 0 \<le> x"
proof -
  have pos: "0 < 1 + exp (- x)" by (simp add: add_pos_pos)
  have "sigmoid x \<ge> 1 / 2 \<longleftrightarrow> 1 + exp (- x) \<le> 2"
    unfolding sigmoid_def using pos by (simp add: field_simps)
  also have "\<dots> \<longleftrightarrow> exp (- x) \<le> exp 0" by simp
  also have "\<dots> \<longleftrightarrow> 0 \<le> x" by (simp only: exp_le_cancel_iff) simp
  finally show ?thesis .
qed

lemma exclusive_cumprod_nth:
  "j < length x \<Longrightarrow> exclusive_cumprod x ! j = (\<Prod>k<j. x ! k)"
proof -
  assume j: "j < length x"
  then have len: "j < length (1 # butlast x)" by simp
  have "exclusive_cumprod x ! j = (\<Prod>k\<le>j. (1 # butlast x) ! k)"
    unfolding exclusive_cumprod_def by (rule cumprod_nth [OF len])
  also have "\<dots> = (\<Prod>k<j. butlast x ! k)"
    by (cases j) (simp_all add: prod.atMost_Suc_shift lessThan_Suc_atMost del: prod.atMost_Suc)
  also have "\<dots> = (\<Prod>k<j. x ! k)"
    using j by (intro prod.cong refl) (simp add: nth_butlast)
  finally show ?thesis .
qed

lemma length_exclusive_cumprod [simp]: "length (exclusive_cumprod x) = max 1 (length x)"
  by (cases x) (simp_all add: exclusive_cumprod_def)

lemma sigmoid_ge_half': "1 \<le> sigmoid x * 2 \<longleftrightarrow> 0 \<le> x"
  using sigmoid_ge_half [of x] by simp

lemma length_one_hot [simp]: "length (one_hot n t) = n"
  by (simp add: one_hot_def)

lemma one_hot_nth: "j < n \<Longrightarrow> one_hot n t ! j = (if j = t then 1 else 0)"
  by (auto simp: one_hot_def nth_list_update)

lemma cumsum_one_hot:
  assumes "j < n"
  shows "cumsum (one_hot n t) ! j = (if t \<le> j then 1 else 0)"
proof -
  have "cumsum (one_hot n t) ! j = (\<Sum>k\<le>j. one_hot n t ! k)"
    using assms by (simp add: cumsum_nth)
  also have "\<dots> = (\<Sum>k\<le>j. if k = t then 1 else 0)"
    using assms by (intro sum.cong refl) (simp add: one_hot_nth)
  also have "\<dots> = (if t \<le> j then 1 else 0)"
    by (simp add: sum.delta)
  finally show ?thesis .
qed

lemma first_one_nth:
  assumes "j < length p" "\<forall>k<length p. p ! k = 0 \<or> p ! k = 1"
  shows "map2 (*) p (exclusive_cumprod (map (\<lambda>x. 1 - x) p)) ! j =
         (if p ! j = 1 \<and> (\<forall>k<j. p ! k = 0) then 1 else 0)"
proof -
  have ne: "p \<noteq> []" using assms(1) by auto
  have "(\<Prod>k<j. map (\<lambda>x. 1 - x) p ! k) = (\<Prod>k<j. 1 - p ! k)"
    using assms(1) by (intro prod.cong refl) simp
  also have "\<dots> = (if \<forall>k<j. p ! k = 0 then 1 else 0)"
  proof (cases "\<forall>k<j. p ! k = 0")
    case True
    then show ?thesis by simp
  next
    case False
    then obtain k where k: "k < j" "p ! k \<noteq> 0" by auto
    with assms have "p ! k = 1" by (metis less_trans)
    with k have "\<exists>a\<in>{..<j}. 1 - p ! a = 0" by auto
    then have "(\<Prod>k<j. 1 - p ! k) = 0" by (simp add: prod_zero_iff [THEN iffD2])
    with False show ?thesis by simp
  qed
  finally have pr: "(\<Prod>k<j. map (\<lambda>x. 1 - x) p ! k) = (if \<forall>k<j. p ! k = 0 then 1 else 0)" .
  have "map2 (*) p (exclusive_cumprod (map (\<lambda>x. 1 - x) p)) ! j =
        p ! j * exclusive_cumprod (map (\<lambda>x. 1 - x) p) ! j"
    using assms(1) ne by simp
  also have "\<dots> = p ! j * (if \<forall>k<j. p ! k = 0 then 1 else 0)"
    using assms(1) pr by (simp add: exclusive_cumprod_nth)
  finally have eq: "map2 (*) p (exclusive_cumprod (map (\<lambda>x. 1 - x) p)) ! j =
      p ! j * (if \<forall>k<j. p ! k = 0 then 1 else 0)" .
  from assms have "p ! j = 0 \<or> p ! j = 1" by blast
  with eq show ?thesis by (cases "\<forall>k<j. p ! k = 0") auto
qed

lemma length_hard_row [simp]:
  "length aw = length e \<Longrightarrow> length (hard_row e aw) = length e"
  by (simp add: hard_row_def Let_def)

lemma find_upt_Some:
  "find P [0 ..< n] = Some j \<longleftrightarrow> j < n \<and> P j \<and> (\<forall>k<j. \<not> P k)"
  by (auto simp: find_Some_iff)

lemma find_upt_None: "find P [0 ..< n] = None \<longleftrightarrow> (\<forall>j<n. \<not> P j)"
  by (auto simp: find_None_iff)

lemma hard_row_one_hot_nth:
  assumes "t < length e" "j < length e"
  shows "hard_row e (one_hot (length e) t) ! j =
         (if (t \<le> j \<and> sigmoid (e ! j) \<ge> 1 / 2) \<and>
             (\<forall>k<j. \<not> (t \<le> k \<and> sigmoid (e ! k) \<ge> 1 / 2)) then 1 else 0)"
proof -
  let ?n = "length e"
  let ?p = "map2 (*) (map (\<lambda>x. if sigmoid x \<ge> 1 / 2 then 1 else 0) e) (cumsum (one_hot ?n t))"
  have len: "length ?p = ?n" by simp
  have p: "?p ! k = (if t \<le> k \<and> sigmoid (e ! k) \<ge> 1 / 2 then 1 else 0)" if "k < ?n" for k
    using that by (simp add: cumsum_one_hot)
  have zo: "\<forall>k<length ?p. ?p ! k = 0 \<or> ?p ! k = 1"
    using p len by (metis (no_types, lifting))
  have "hard_row e (one_hot ?n t) ! j =
        (if ?p ! j = 1 \<and> (\<forall>k<j. ?p ! k = 0) then 1 else 0)"
    unfolding hard_row_def Let_def
    using first_one_nth [of j ?p] zo assms(2) len by simp
  also have "\<dots> = (if (t \<le> j \<and> sigmoid (e ! j) \<ge> 1 / 2) \<and>
             (\<forall>k<j. \<not> (t \<le> k \<and> sigmoid (e ! k) \<ge> 1 / 2)) then 1 else 0)"
  proof -
    have a: "?p ! j = 1 \<longleftrightarrow> (t \<le> j \<and> sigmoid (e ! j) \<ge> 1 / 2)"
      using p [OF assms(2)] by simp
    have b: "(\<forall>k<j. ?p ! k = 0) \<longleftrightarrow> (\<forall>k<j. \<not> (t \<le> k \<and> sigmoid (e ! k) \<ge> 1 / 2))"
    proof (intro all_cong1 imp_cong refl)
      fix k assume "k < j"
      with assms(2) have "k < ?n" by simp
      from p [OF this] show "?p ! k = 0 \<longleftrightarrow> \<not> (t \<le> k \<and> sigmoid (e ! k) \<ge> 1 / 2)" by simp
    qed
    show ?thesis by (simp only: a b)
  qed
  finally show ?thesis .
qed

text \<open>
  Claim C4, as amended.  In \<open>hard\<close> mode before latency control, with \<open>aw_prev\<close> one-hot
  at \<open>t\<close>: the choose indicators (sigmoid of the energy at least \<open>0.5\<close>) strictly before
  \<open>t\<close> are suppressed, the one at \<open>t\<close> itself is kept, and the row of \<open>alpha\<close> is one-hot
  at the first remaining indicator, or all zero when none remains.
\<close>

theorem hard_row_selects_first:
  assumes "t < length e"
  shows "hard_row e (one_hot (length e) t) =
         (case first_choose_from t e of
            None \<Rightarrow> replicate (length e) 0
          | Some j \<Rightarrow> one_hot (length e) j)"
proof (rule nth_equalityI)
  show "length (hard_row e (one_hot (length e) t)) =
        length (case first_choose_from t e of None \<Rightarrow> replicate (length e) 0
                | Some j \<Rightarrow> one_hot (length e) j)"
    by (simp split: option.split)
next
  fix j assume "j < length (hard_row e (one_hot (length e) t))"
  then have j: "j < length e" by simp
  let ?P = "\<lambda>j. t \<le> j \<and> sigmoid (e ! j) \<ge> 1 / 2"
  show "hard_row e (one_hot (length e) t) ! j =
        (case first_choose_from t e of None \<Rightarrow> replicate (length e) 0
         | Some j \<Rightarrow> one_hot (length e) j) ! j"
  proof (cases "first_choose_from t e")
    case None
    then have "\<forall>k<length e. \<not> ?P k"
      by (simp add: first_choose_from_def find_upt_None)
    with j have "\<not> ?P j" by blast
    with None j assms show ?thesis
      by (auto simp: hard_row_one_hot_nth)
  next
    case (Some j0)
    then have j0: "j0 < length e" "?P j0" "\<forall>k<j0. \<not> ?P k"
      by (simp_all add: first_choose_from_def find_upt_Some)
    have "(?P j \<and> (\<forall>k<j. \<not> ?P k)) \<longleftrightarrow> j = j0"
      using j0 by (metis linorder_neqE_nat)
    with Some j assms show ?thesis
      by (auto simp: hard_row_one_hot_nth one_hot_nth)
  qed
qed

theorem hard_row_selects_first_witness:
  "(0::nat) < length [- 1, - 2, - 3, 4, 5 :: real] \<and>
   hard_row [- 1, - 2, - 3, 4, 5] (one_hot (length [- 1, - 2, - 3, 4, 5 :: real]) 0) = [0, 0, 0, 1, 0] \<and>
   first_choose_from 0 [- 1, - 2, - 3, 4, 5] = Some 3"
  using hard_row_selects_first [of 0 "[- 1, - 2, - 3, 4, 5]"]
  by (simp add: first_choose_from_def sigmoid_ge_half' one_hot_def eval_nat_numeral)

text \<open>
  Claim C4 as stated suppresses the indicator at \<open>t\<close> too.  With all indicators set and
  \<open>aw_prev\<close> one-hot at \<open>1\<close>, the source selects index \<open>1\<close> again, not index \<open>2\<close>.
\<close>

theorem hard_row_keeps_indicator_at_boundary:
  "hard_row [1, 1, 1] (one_hot 3 1) = [0, 1, 0] \<and>
   hard_row [1, 1, 1] (one_hot 3 1) \<noteq>
     (case first_choose_from (Suc 1) [1, 1, 1] of None \<Rightarrow> replicate 3 0 | Some j \<Rightarrow> one_hot 3 j)"
  by (simp add: hard_row_def first_choose_from_def sigmoid_ge_half' one_hot_def cumsum_def
      exclusive_cumprod_def cumprod_def eval_nat_numeral)

subsection \<open>Latency control\<close>

lemma fold_min_Min: "fold min ys (x::nat) = Min (set (x # ys))"
  by (simp only: Min.set_eq_fold)

lemma fold_max_Max: "fold max ys (x::nat) = Max (set (x # ys))"
  by (simp only: Max.set_eq_fold)

lemma index_min_Inr_iff: "index_min xs = Inr m \<longleftrightarrow> xs \<noteq> [] \<and> m = Min (set xs)"
  by (cases xs) (auto simp: index_min_def fold_min_Min simp del: set_simps)

lemma index_max_Inr_iff: "index_max xs = Inr m \<longleftrightarrow> xs \<noteq> [] \<and> m = Max (set xs)"
  by (cases xs) (auto simp: index_max_def fold_max_Max simp del: set_simps)

lemma sum_list_all_zero: "\<forall>y\<in>set x. y = (0::real) \<Longrightarrow> sum_list x = 0"
  by (induction x) simp_all

lemma set_nonzero: "set (nonzero x) = {j. j < length x \<and> x ! j \<noteq> 0}"
  by (auto simp: nonzero_def)

lemma sum_list_nonzero: "sum_list x \<noteq> 0 \<Longrightarrow> nonzero x \<noteq> []"
proof (rule ccontr)
  assume s: "sum_list x \<noteq> 0" and "\<not> nonzero x \<noteq> []"
  then have "set (nonzero x) = {}" by simp
  then have "\<forall>j<length x. x ! j = 0" by (auto simp: set_nonzero)
  then have "\<forall>y\<in>set x. y = 0" by (auto simp: in_set_conv_nth)
  then have "sum_list x = 0" by (rule sum_list_all_zero)
  with s show False by simp
qed

lemma set_item_in_range:
  "0 \<le> i \<Longrightarrow> i < int (length x) \<Longrightarrow> set_item x i v = Inr (x[nat i := v])"
  by (simp add: set_item_def Let_def)

lemma latency_target_simp:
  "latency_target fml eps_wait bt lm rm x =
     (if sum_list x = 0 then Inr (Some (False, min (int rm) (int lm + eps_wait)))
      else (case index_min (nonzero x) of
              Inl err \<Rightarrow> Inl err
            | Inr first \<Rightarrow> if int first \<ge> int lm + eps_wait
                           then Inr (Some (True, int lm + eps_wait)) else Inr None))"
  by (auto simp: latency_target_def vertical_latency_def split: sum.splits)

lemma Min_nonzero_less:
  assumes "nonzero x \<noteq> []"
  shows "Min (set (nonzero x)) < length x" "x ! Min (set (nonzero x)) \<noteq> 0"
proof -
  have "Min (set (nonzero x)) \<in> set (nonzero x)"
    using assms by (intro Min_in) simp_all
  then show "Min (set (nonzero x)) < length x" "x ! Min (set (nonzero x)) \<noteq> 0"
    by (simp_all add: set_nonzero)
qed

lemma latency_target_in_range:
  assumes "0 < eps_wait" "rm < length x"
  shows "case latency_target fml eps_wait bt lm rm x of
           Inl err \<Rightarrow> False
         | Inr None \<Rightarrow> True
         | Inr (Some (rs, i)) \<Rightarrow> 0 \<le> i \<and> i < int (length x)"
proof (cases "sum_list x = 0")
  case True
  with assms show ?thesis by (simp add: latency_target_simp)
next
  case False
  then have ne: "nonzero x \<noteq> []" by (rule sum_list_nonzero)
  then have m: "index_min (nonzero x) = Inr (Min (set (nonzero x)))"
    by (simp add: index_min_Inr_iff)
  from Min_nonzero_less(1) [OF ne] assms False m show ?thesis
    by (simp add: latency_target_simp)
qed

lemma latency_head_Inr:
  assumes "0 < eps_wait" "rm < length x"
  shows "\<exists>y. latency_head fml eps_wait bt lm rm x = Inr y \<and> length y = length x"
proof -
  from latency_target_in_range [OF assms, of fml bt lm]
  show ?thesis
    by (auto simp: latency_head_def set_item_in_range split: sum.splits option.splits)
qed

lemma latency_heads_map:
  assumes "distinct hs" "\<forall>h\<in>set hs. h < length xs \<and> (\<exists>y. f (xs ! h) = Inr y)"
  shows "latency_heads f hs xs =
         Inr (map (\<lambda>h. if h \<in> set hs then projr (f (xs ! h)) else xs ! h) [0 ..< length xs])"
  using assms
proof (induction hs arbitrary: xs)
  case Nil
  then show ?case by (simp add: map_nth)
next
  case (Cons h hs)
  from Cons.prems obtain y where y: "f (xs ! h) = Inr y" and h: "h < length xs" "h \<notin> set hs"
    by auto
  have pre: "\<forall>h'\<in>set hs. h' < length (xs[h := y]) \<and> (\<exists>z. f (xs[h := y] ! h') = Inr z)"
    using Cons.prems h by (auto simp: nth_list_update)
  have "latency_heads f (h # hs) xs = latency_heads f hs (xs[h := y])"
    using y h by simp
  also have "\<dots> = Inr (map (\<lambda>h'. if h' \<in> set hs then projr (f (xs[h := y] ! h'))
                                else xs[h := y] ! h') [0 ..< length (xs[h := y])])"
    using Cons.prems pre by (intro Cons.IH) simp_all
  also have "map (\<lambda>h'. if h' \<in> set hs then projr (f (xs[h := y] ! h'))
                                else xs[h := y] ! h') [0 ..< length (xs[h := y])] =
             map (\<lambda>h'. if h' \<in> set (h # hs) then projr (f (xs ! h')) else xs ! h') [0 ..< length xs]"
    using h y by (auto simp: nth_list_update)
  finally show ?case .
qed

lemma latency_heads_all:
  assumes "\<forall>x\<in>set xs. \<exists>y. f x = Inr y"
  shows "latency_heads f [0 ..< length xs] xs = Inr (map (\<lambda>x. projr (f x)) xs)"
proof -
  have "latency_heads f [0 ..< length xs] xs =
        Inr (map (\<lambda>h. if h \<in> set [0 ..< length xs] then projr (f (xs ! h)) else xs ! h)
               [0 ..< length xs])"
    using assms by (intro latency_heads_map) auto
  also have "map (\<lambda>h. if h \<in> set [0 ..< length xs] then projr (f (xs ! h)) else xs ! h)
               [0 ..< length xs] = map (\<lambda>x. projr (f x)) xs"
    by (rule nth_equalityI) simp_all
  finally show ?thesis .
qed

text \<open>The indices of the nonzero entries of all heads lie below \<open>klen\<close>.\<close>

lemma all_nonzero_bound:
  assumes "list_all (\<lambda>x. length x = klen) xs" "j \<in> set (concat (map nonzero xs))"
  shows "j < klen"
  using assms by (auto simp: list_all_iff set_nonzero)

lemma total_nonzero:
  assumes "sum_list (map sum_list xs) \<noteq> 0"
  shows "concat (map nonzero xs) \<noteq> []"
proof -
  have "\<exists>x\<in>set xs. sum_list x \<noteq> 0"
  proof (rule ccontr)
    assume "\<not> (\<exists>x\<in>set xs. sum_list x \<noteq> 0)"
    then have "\<forall>y\<in>set (map sum_list xs). y = 0" by auto
    then have "sum_list (map sum_list xs) = 0" by (rule sum_list_all_zero)
    with assms show False by simp
  qed
  then obtain x where "x \<in> set xs" "nonzero x \<noteq> []"
    using sum_list_nonzero by blast
  then show ?thesis by auto
qed

lemma latency_batch_simp:
  assumes "0 < eps_wait" "length xs = H" "list_all (\<lambda>x. length x = klen) xs"
  shows "latency_batch H eps_wait br xs =
         (if sum_list (map sum_list xs) = 0 then Inr xs
          else Inr (map (\<lambda>x. projr (latency_head (br = None) eps_wait (int (size1 xs) - 1)
                          (Min (set (concat (map nonzero xs))))
                          (Max (set (concat (map nonzero xs)))) x)) xs))"
proof (cases "sum_list (map sum_list xs) = 0")
  case True
  then show ?thesis by (simp add: latency_batch_def vertical_latency_def Let_def)
next
  case False
  let ?S = "concat (map nonzero xs)"
  let ?f = "latency_head (br = None) eps_wait (int (size1 xs) - 1) (Min (set ?S)) (Max (set ?S))"
  have ne: "?S \<noteq> []" using False by (rule total_nonzero)
  then have "Max (set ?S) \<in> set ?S" by (intro Max_in) simp_all
  then have rm: "Max (set ?S) < klen" using assms(3) by (rule all_nonzero_bound [rotated])
  have "\<forall>x\<in>set xs. \<exists>y. ?f x = Inr y"
  proof
    fix x assume "x \<in> set xs"
    with assms(3) have "length x = klen" by (simp add: list_all_iff)
    with rm have "Max (set ?S) < length x" by simp
    from latency_head_Inr [OF assms(1) this]
    show "\<exists>y. ?f x = Inr y" by blast
  qed
  then have "latency_heads ?f [0 ..< length xs] xs = Inr (map (\<lambda>x. projr (?f x)) xs)"
    by (rule latency_heads_all)
  with False ne assms(2) show ?thesis
    by (simp add: latency_batch_def Let_def boundary_threshold_def vertical_latency_def
        index_min_Inr_iff [THEN iffD2] index_max_Inr_iff [THEN iffD2])
qed

subsection \<open>One-hot rows\<close>

lemma one_hot_Suc: "one_hot (Suc n) (Suc t) = 0 # one_hot n t"
  by (simp add: one_hot_def)

lemma one_hot_0: "one_hot (Suc n) 0 = 1 # replicate n 0"
  by (simp add: one_hot_def)

lemma sum_list_replicate_0 [simp]: "sum_list (replicate n (0::real)) = 0"
  by (induction n) simp_all

lemma sum_list_one_hot: "t < n \<Longrightarrow> sum_list (one_hot n t) = 1"
proof (induction n arbitrary: t)
  case 0
  then show ?case by simp
next
  case (Suc n)
  then show ?case by (cases t) (simp_all add: one_hot_Suc one_hot_0)
qed

lemma one_hot_or_zero_one_hot: "t < n \<Longrightarrow> one_hot_or_zero (one_hot n t)"
  by (auto simp: one_hot_or_zero_def sum_list_one_hot list_all_length one_hot_nth)

lemma one_hot_or_zero_zeros: "one_hot_or_zero (replicate n 0)"
  by (simp add: one_hot_or_zero_def list_all_length)

lemma zero_one_sum_nonneg: "list_all (\<lambda>y. y = 0 \<or> y = (1::real)) x \<Longrightarrow> 0 \<le> sum_list x"
  by (induction x) auto

lemma one_hot_or_zero_cases:
  "one_hot_or_zero x \<Longrightarrow>
   x = replicate (length x) 0 \<or> (\<exists>t<length x. x = one_hot (length x) t)"
proof (induction x)
  case Nil
  then show ?case by simp
next
  case (Cons v x)
  then have v: "v = 0 \<or> v = 1" and zo: "list_all (\<lambda>y. y = 0 \<or> y = 1) x"
    and s: "v + sum_list x \<le> 1"
    by (simp_all add: one_hot_or_zero_def)
  from zo have nn: "0 \<le> sum_list x" by (rule zero_one_sum_nonneg)
  with v s have "sum_list x \<le> 1" by auto
  with zo have "one_hot_or_zero x" by (simp add: one_hot_or_zero_def)
  from Cons.IH [OF this]
  consider "x = replicate (length x) 0" | t where "t < length x" "x = one_hot (length x) t"
    by blast
  then show ?case
  proof cases
    case 1
    show ?thesis
    proof (cases "v = 0")
      case True
      with 1 have "v # x = replicate (length (v # x)) 0" by simp
      then show ?thesis by blast
    next
      case False
      with v have "v = 1" by simp
      with 1 have "v # x = one_hot (length (v # x)) 0" by (simp add: one_hot_0)
      then show ?thesis by auto
    qed
  next
    case 2
    then have "sum_list x = 1" by (metis sum_list_one_hot)
    with s v have "v = 0" by auto
    with 2 have "v # x = one_hot (length (v # x)) (Suc t)"
      by (simp add: one_hot_Suc)
    with 2(1) show ?thesis by auto
  qed
qed

lemma nonzero_one_hot: "t < n \<Longrightarrow> set (nonzero (one_hot n t)) = {t}"
  by (auto simp: set_nonzero one_hot_nth split: if_splits)

lemma cumsum_zeros: "cumsum (replicate n 0) = replicate n 0"
  by (rule nth_equalityI) (simp_all add: cumsum_nth)

lemma zero_one_first_one:
  assumes "\<forall>k<length p. p ! k = 0 \<or> p ! k = 1"
  shows "map2 (*) p (exclusive_cumprod (map (\<lambda>x. 1 - x) p)) =
         (case find (\<lambda>j. p ! j = 1) [0 ..< length p] of
            None \<Rightarrow> replicate (length p) 0
          | Some j \<Rightarrow> one_hot (length p) j)"
proof (rule nth_equalityI)
  show "length (map2 (*) p (exclusive_cumprod (map (\<lambda>x. 1 - x) p))) =
        length (case find (\<lambda>j. p ! j = 1) [0 ..< length p] of
            None \<Rightarrow> replicate (length p) 0 | Some j \<Rightarrow> one_hot (length p) j)"
    by (simp split: option.split)
next
  fix j assume "j < length (map2 (*) p (exclusive_cumprod (map (\<lambda>x. 1 - x) p)))"
  then have j: "j < length p" by simp
  note nth = first_one_nth [OF j assms]
  show "map2 (*) p (exclusive_cumprod (map (\<lambda>x. 1 - x) p)) ! j =
        (case find (\<lambda>j. p ! j = 1) [0 ..< length p] of
            None \<Rightarrow> replicate (length p) 0 | Some j \<Rightarrow> one_hot (length p) j) ! j"
  proof (cases "find (\<lambda>j. p ! j = 1) [0 ..< length p]")
    case None
    then have "\<forall>k<length p. p ! k \<noteq> 1" by (simp add: find_upt_None)
    with j have "p ! j \<noteq> 1" by blast
    with None j show ?thesis unfolding nth by simp
  next
    case (Some j0)
    then have j0: "j0 < length p" "p ! j0 = 1" "\<forall>k<j0. p ! k \<noteq> 1"
      by (simp_all add: find_upt_Some)
    have "(p ! j = 1 \<and> (\<forall>k<j. p ! k = 0)) \<longleftrightarrow> j = j0"
    proof
      assume a: "p ! j = 1 \<and> (\<forall>k<j. p ! k = 0)"
      show "j = j0"
      proof (rule ccontr)
        assume "j \<noteq> j0"
        then consider "j < j0" | "j0 < j" by linarith
        then show False
        proof cases
          case 1
          with j0(3) a show False by blast
        next
          case 2
          with a have "p ! j0 = 0" by blast
          with j0(2) show False by simp
        qed
      qed
    next
      assume "j = j0"
      moreover have "\<forall>k<j0. p ! k = 0"
        using j0 assms by (metis less_trans)
      ultimately show "p ! j = 1 \<and> (\<forall>k<j. p ! k = 0)" using j0(2) by simp
    qed
    with Some j show ?thesis unfolding nth by (simp add: one_hot_nth)
  qed
qed

lemma hard_row_one_hot_or_zero:
  assumes "one_hot_or_zero aw" "length aw = length e"
  shows "one_hot_or_zero (hard_row e aw)"
proof -
  let ?ch = "map (\<lambda>x. if sigmoid x \<ge> 1 / 2 then 1 else 0 :: real) e"
  let ?p = "map2 (*) ?ch (cumsum aw)"
  have cs: "\<forall>k<length aw. cumsum aw ! k = 0 \<or> cumsum aw ! k = 1"
    using one_hot_or_zero_cases [OF assms(1)]
  proof
    assume "aw = replicate (length aw) 0"
    then have "cumsum aw = replicate (length aw) 0" by (metis cumsum_zeros)
    then show ?thesis by simp
  next
    assume "\<exists>t<length aw. aw = one_hot (length aw) t"
    then obtain t where "aw = one_hot (length aw) t" by blast
    then have "\<forall>k<length aw. cumsum aw ! k = (if t \<le> k then 1 else 0)"
      by (metis cumsum_one_hot)
    then show ?thesis by auto
  qed
  have len: "length ?p = length e" using assms(2) by simp
  have zo: "\<forall>k<length ?p. ?p ! k = 0 \<or> ?p ! k = 1"
    using cs assms(2) by auto
  have "hard_row e aw =
        (case find (\<lambda>j. ?p ! j = 1) [0 ..< length ?p] of
            None \<Rightarrow> replicate (length ?p) 0 | Some j \<Rightarrow> one_hot (length ?p) j)"
    unfolding hard_row_def Let_def by (rule zero_one_first_one [OF zo])
  then show ?thesis
    by (auto simp: find_upt_Some one_hot_or_zero_zeros one_hot_or_zero_one_hot
             simp del: length_map length_zip split: option.splits)
qed

lemma latency_head_one_hot:
  assumes "0 < eps_wait" "rm < length x" "one_hot_or_zero x"
  shows "\<exists>y. latency_head fml eps_wait bt lm rm x = Inr y \<and> length y = length x \<and>
             one_hot_or_zero y \<and> (\<forall>j<length x. y ! j \<noteq> 0 \<longrightarrow> int j \<le> int lm + eps_wait)"
  using one_hot_or_zero_cases [OF assms(3)]
proof
  assume z: "x = replicate (length x) 0"
  then have s: "sum_list x = 0" by (metis sum_list_replicate_0)
  let ?i = "min (int rm) (int lm + eps_wait)"
  have i: "0 \<le> ?i" "?i < int (length x)" "nat ?i < length x" using assms(1,2) by auto
  have "latency_head fml eps_wait bt lm rm x = Inr (x[nat ?i := 1])"
    using s i by (simp add: latency_head_def latency_target_simp set_item_in_range)
  moreover have "x[nat ?i := 1] = one_hot (length x) (nat ?i)"
    using z by (simp add: one_hot_def)
  moreover have "\<forall>j<length x. one_hot (length x) (nat ?i) ! j \<noteq> 0 \<longrightarrow> int j \<le> int lm + eps_wait"
    using i by (auto simp: one_hot_nth split: if_splits)
  ultimately show ?thesis
    using i by (simp add: one_hot_or_zero_one_hot)
next
  assume "\<exists>t<length x. x = one_hot (length x) t"
  then obtain t where t: "t < length x" "x = one_hot (length x) t" by blast
  then have s: "sum_list x \<noteq> 0" by (metis sum_list_one_hot zero_neq_one)
  have "set (nonzero x) = {t}" using t by (metis nonzero_one_hot)
  then have m: "index_min (nonzero x) = Inr t"
    by (auto simp: index_min_Inr_iff)
  show ?thesis
  proof (cases "int t \<ge> int lm + eps_wait")
    case True
    let ?i = "int lm + eps_wait"
    have i: "0 \<le> ?i" "?i < int (length x)" "nat ?i < length x" using assms(1) True t(1) by auto
    have "latency_head fml eps_wait bt lm rm x = Inr ((map (\<lambda>_. 0) x)[nat ?i := 1])"
      using s m True i by (simp add: latency_head_def latency_target_simp set_item_in_range)
    moreover have "(map (\<lambda>_. 0) x)[nat ?i := 1] = one_hot (length x) (nat ?i)"
      by (simp add: one_hot_def map_replicate_const)
    moreover have "\<forall>j<length x. one_hot (length x) (nat ?i) ! j \<noteq> 0 \<longrightarrow> int j \<le> int lm + eps_wait"
      using i by (auto simp: one_hot_nth split: if_splits)
    ultimately show ?thesis
      using i by (simp add: one_hot_or_zero_one_hot)
  next
    case False
    have "latency_head fml eps_wait bt lm rm x = Inr x"
      using s m False by (simp add: latency_head_def latency_target_simp)
    moreover have "\<forall>j<length x. x ! j \<noteq> 0 \<longrightarrow> int j \<le> int lm + eps_wait"
    proof (intro allI impI)
      fix j assume "j < length x" "x ! j \<noteq> 0"
      with t have "j = t" by (metis one_hot_nth)
      with False show "int j \<le> int lm + eps_wait" by simp
    qed
    ultimately show ?thesis using assms(3) by simp
  qed
qed

subsection \<open>Shapes\<close>

lemma has_shape4_nth:
  assumes "has_shape4 bs h q k x"
  shows "length x = bs"
    and "b < bs \<Longrightarrow> length (x ! b) = h"
    and "b < bs \<Longrightarrow> i < h \<Longrightarrow> length (x ! b ! i) = q"
    and "b < bs \<Longrightarrow> i < h \<Longrightarrow> j < q \<Longrightarrow> length (x ! b ! i ! j) = k"
  using assms by (auto simp: has_shape4_def list_all_length)

lemma has_shape4_I:
  assumes "length x = bs"
    and "\<And>b. b < bs \<Longrightarrow> length (x ! b) = h"
    and "\<And>b i. b < bs \<Longrightarrow> i < h \<Longrightarrow> length (x ! b ! i) = q"
    and "\<And>b i j. b < bs \<Longrightarrow> i < h \<Longrightarrow> j < q \<Longrightarrow> length (x ! b ! i ! j) = k"
  shows "has_shape4 bs h q k x"
  using assms by (auto simp: has_shape4_def list_all_length)

lemma sequence_map_Inr:
  "\<forall>x\<in>set xs. \<exists>y. g x = Inr y \<Longrightarrow> sequence (map g xs) = Inr (map (\<lambda>x. projr (g x)) xs)"
  by (induction xs) auto

lemma hard_alpha_shape:
  assumes "has_shape4 bs H 1 klen e_mono" "has_shape4 bs H 1 klen aw_prev"
  shows "length (hard_alpha e_mono aw_prev) = bs"
    and "b < bs \<Longrightarrow> length (hard_alpha e_mono aw_prev ! b) = H"
    and "b < bs \<Longrightarrow> h < H \<Longrightarrow>
         hard_alpha e_mono aw_prev ! b ! h = hard_row (e_mono ! b ! h ! 0) (aw_prev ! b ! h ! 0)"
    and "b < bs \<Longrightarrow> h < H \<Longrightarrow> length (hard_alpha e_mono aw_prev ! b ! h) = klen"
proof -
  note e = has_shape4_nth [OF assms(1)] and a = has_shape4_nth [OF assms(2)]
  show l: "length (hard_alpha e_mono aw_prev) = bs"
    using e(1) a(1) by (simp add: hard_alpha_def)
  show l2: "length (hard_alpha e_mono aw_prev ! b) = H" if "b < bs"
    using that e(1,2) a(1,2) by (simp add: hard_alpha_def)
  show r: "hard_alpha e_mono aw_prev ! b ! h = hard_row (e_mono ! b ! h ! 0) (aw_prev ! b ! h ! 0)"
    if "b < bs" "h < H"
    using that e(1,2) a(1,2) by (simp add: hard_alpha_def)
  show "length (hard_alpha e_mono aw_prev ! b ! h) = klen" if "b < bs" "h < H"
    using that r e(4) [of b h 0] a(4) [of b h 0] by simp
qed

lemma latency_batch_one_hot:
  assumes "0 < eps_wait" "length xs = H" "list_all (\<lambda>x. length x = klen) xs"
    "list_all one_hot_or_zero xs"
  shows "\<exists>ys. latency_batch H eps_wait br xs = Inr ys \<and> length ys = H \<and>
           list_all (\<lambda>y. length y = klen) ys \<and> list_all one_hot_or_zero ys \<and>
           (\<forall>lm. index_min (concat (map nonzero xs)) = Inr lm \<longrightarrow>
              list_all (\<lambda>y. \<forall>j<klen. y ! j \<noteq> 0 \<longrightarrow> int j \<le> int lm + eps_wait) ys)"
proof (cases "sum_list (map sum_list xs) = 0")
  case True
  have "\<forall>y\<in>set (map sum_list xs). 0 \<le> y"
    using assms(4) by (auto simp: list_all_iff one_hot_or_zero_def intro: zero_one_sum_nonneg)
  with True have "\<forall>y\<in>set (map sum_list xs). y = 0"
    by (simp only: sum_list_nonneg_eq_0_iff)
  then have z: "\<forall>x\<in>set xs. sum_list x = 0" by simp
  have "\<forall>x\<in>set xs. \<forall>j<klen. x ! j = 0"
  proof (intro ballI allI impI)
    fix x j assume x: "x \<in> set xs" and j: "j < klen"
    with assms(3,4) have l: "length x = klen" and o: "one_hot_or_zero x"
      by (simp_all add: list_all_iff)
    from z x have "sum_list x = 0" by blast
    with one_hot_or_zero_cases [OF o] have "x = replicate (length x) 0"
      by (metis sum_list_one_hot zero_neq_one)
    with j l show "x ! j = 0" by (metis nth_replicate)
  qed
  then have "list_all (\<lambda>y. \<forall>j<klen. y ! j \<noteq> 0 \<longrightarrow> int j \<le> int lm + eps_wait) xs" for lm
    by (simp add: list_all_iff)
  with True assms show ?thesis
    by (simp add: latency_batch_simp [OF assms(1-3)])
next
  case False
  let ?S = "concat (map nonzero xs)"
  let ?f = "latency_head (br = None) eps_wait (int (size1 xs) - 1) (Min (set ?S)) (Max (set ?S))"
  have ne: "?S \<noteq> []" using False by (rule total_nonzero)
  then have "Max (set ?S) \<in> set ?S" by (intro Max_in) simp_all
  then have rm: "Max (set ?S) < klen" using assms(3) by (rule all_nonzero_bound [rotated])
  have eq: "latency_batch H eps_wait br xs = Inr (map (\<lambda>x. projr (?f x)) xs)"
    using False by (simp add: latency_batch_simp [OF assms(1-3)])
  have each: "length (projr (?f x)) = klen \<and> one_hot_or_zero (projr (?f x)) \<and>
      (\<forall>j<klen. projr (?f x) ! j \<noteq> 0 \<longrightarrow> int j \<le> int (Min (set ?S)) + eps_wait)"
    if "x \<in> set xs" for x
  proof -
    from that assms(3,4) have l: "length x = klen" and o: "one_hot_or_zero x"
      by (simp_all add: list_all_iff)
    from rm l have "Max (set ?S) < length x" by simp
    from latency_head_one_hot [OF assms(1) this o, of "br = None" "int (size1 xs) - 1" "Min (set ?S)"]
    show ?thesis using l by auto
  qed
  have "\<forall>lm. index_min ?S = Inr lm \<longrightarrow>
          list_all (\<lambda>y. \<forall>j<klen. y ! j \<noteq> 0 \<longrightarrow> int j \<le> int lm + eps_wait)
            (map (\<lambda>x. projr (?f x)) xs)"
    using each by (simp add: index_min_Inr_iff list_all_iff)
  moreover have "list_all (\<lambda>y. length y = klen) (map (\<lambda>x. projr (?f x)) xs)"
    "list_all one_hot_or_zero (map (\<lambda>x. projr (?f x)) xs)"
    using each by (simp_all add: list_all_iff)
  ultimately show ?thesis using eq assms(2) by simp
qed

lemma latency_batch_Inr:
  assumes "0 < eps_wait" "length xs = H" "list_all (\<lambda>x. length x = klen) xs"
  shows "\<exists>ys. latency_batch H eps_wait br xs = Inr ys \<and> length ys = H \<and>
           list_all (\<lambda>y. length y = klen) ys"
proof (cases "sum_list (map sum_list xs) = 0")
  case True
  with assms show ?thesis by (simp add: latency_batch_simp [OF assms(1-3)])
next
  case False
  let ?S = "concat (map nonzero xs)"
  let ?f = "latency_head (br = None) eps_wait (int (size1 xs) - 1) (Min (set ?S)) (Max (set ?S))"
  have ne: "?S \<noteq> []" using False by (rule total_nonzero)
  then have "Max (set ?S) \<in> set ?S" by (intro Max_in) simp_all
  then have rm: "Max (set ?S) < klen" using assms(3) by (rule all_nonzero_bound [rotated])
  have "length (projr (?f x)) = klen" if "x \<in> set xs" for x
  proof -
    from that assms(3) have l: "length x = klen" by (simp add: list_all_iff)
    with rm have "Max (set ?S) < length x" by simp
    from latency_head_Inr [OF assms(1) this, of "br = None" "int (size1 xs) - 1" "Min (set ?S)"]
    show ?thesis using l by auto
  qed
  then have "list_all (\<lambda>y. length y = klen) (map (\<lambda>x. projr (?f x)) xs)"
    by (simp add: list_all_iff)
  with False assms(2) show ?thesis by (simp add: latency_batch_simp [OF assms(1-3)])
qed

lemma latency_batch_ignores_boundary_rightmost:
  "latency_batch H eps_wait br xs = latency_batch H eps_wait None xs"
proof -
  have "latency_head fml eps_wait bt lm rm = latency_head True eps_wait bt' lm rm"
    for fml bt bt' lm rm
    by (rule ext) (simp add: latency_head_def latency_target_simp)
  then have "latency_head (br = None) eps_wait (int (size1 xs) - 1) lm rm =
             latency_head (None = (None :: int option)) eps_wait (int (size1 xs) - 1) lm rm" for lm rm
    by simp
  then show ?thesis
    by (simp add: latency_batch_def boundary_threshold_def vertical_latency_def Let_def
        cong: sum.case_cong)
qed

subsection \<open>The hard mode on tensors\<close>

lemma mode_hard_latency:
  assumes "0 < eps_wait" "has_shape4 bs H 1 klen e_mono" "has_shape4 bs H 1 klen aw_prev"
  shows "mode_hard H eps_wait br 1 e_mono aw_prev =
         Inr (map (\<lambda>xs. map (\<lambda>x. [x]) (projr (latency_batch H eps_wait br xs)))
                (hard_alpha e_mono aw_prev))"
proof -
  note sh = hard_alpha_shape [OF assms(2,3)]
  have "\<forall>xs\<in>set (hard_alpha e_mono aw_prev). \<exists>ys. latency_batch H eps_wait br xs = Inr ys"
  proof
    fix xs assume "xs \<in> set (hard_alpha e_mono aw_prev)"
    then obtain b where b: "b < bs" "xs = hard_alpha e_mono aw_prev ! b"
      using sh(1) by (auto simp: in_set_conv_nth)
    then have "length xs = H" "list_all (\<lambda>x. length x = klen) xs"
      using sh(2,4) by (simp_all add: list_all_length)
    from latency_batch_Inr [OF assms(1) this]
    show "\<exists>ys. latency_batch H eps_wait br xs = Inr ys" by blast
  qed
  from sequence_map_Inr [OF this] assms(1) show ?thesis
    by (simp add: mode_hard_def Let_def)
qed

lemma mode_hard_no_latency:
  "eps_wait \<le> 0 \<Longrightarrow>
   mode_hard H eps_wait br 1 e_mono aw_prev = Inr (map (map (\<lambda>x. [x])) (hard_alpha e_mono aw_prev))"
  by (simp add: mode_hard_def)

text \<open>
  Claim C10.  In \<open>hard\<close> mode with \<open>eps_wait > 0\<close>, on tensors of the documented shapes
  with \<open>klen \<ge> 1\<close>, the latency control raises no \<open>IndexError\<close>: it returns an \<open>alpha\<close>
  of the same shape; for every batch element with its \<open>leftmost\<close> and \<open>rightmost\<close>, the
  index that the loop writes for any head (\<open>min(rightmost, leftmost + eps_wait)\<close> for a
  head without boundary, \<open>leftmost + eps_wait\<close> for a relocated head) is within
  \<open>[0, klen - 1]\<close>; and so is the fallback \<open>boundary_threshold = klen - 1\<close>.
\<close>

theorem latency_control_in_bounds:
  assumes "0 < eps_wait" "has_shape4 bs H 1 klen e_mono" "has_shape4 bs H 1 klen aw_prev"
    "0 < klen"
  shows "(\<exists>alpha. mode_hard H eps_wait br 1 e_mono aw_prev = Inr alpha \<and>
            has_shape4 bs H 1 klen alpha) \<and>
         (\<forall>b<bs. \<forall>lm rm.
            index_min (concat (map nonzero (hard_alpha e_mono aw_prev ! b))) = Inr lm \<longrightarrow>
            index_max (concat (map nonzero (hard_alpha e_mono aw_prev ! b))) = Inr rm \<longrightarrow>
            (\<forall>h<H. case latency_target (br = None) eps_wait
                            (boundary_threshold br eps_wait (int klen - 1)) lm rm
                            (hard_alpha e_mono aw_prev ! b ! h) of
                      Inl err \<Rightarrow> False
                    | Inr None \<Rightarrow> True
                    | Inr (Some (rs, i)) \<Rightarrow> 0 \<le> i \<and> i < int klen)) \<and>
         0 \<le> boundary_threshold br eps_wait (int klen - 1) \<and>
         boundary_threshold br eps_wait (int klen - 1) < int klen"
proof (intro conjI allI impI)
  note sh = hard_alpha_shape [OF assms(2,3)]
  let ?A = "hard_alpha e_mono aw_prev"
  let ?R = "map (\<lambda>xs. map (\<lambda>x. [x]) (projr (latency_batch H eps_wait br xs))) ?A"
  have "has_shape4 bs H 1 klen ?R"
  proof (rule has_shape4_I)
    show "length ?R = bs" using sh(1) by simp
  next
    fix b assume b: "b < bs"
    then have "length (?A ! b) = H" "list_all (\<lambda>x. length x = klen) (?A ! b)"
      using sh(2,4) by (simp_all add: list_all_length)
    from latency_batch_Inr [OF assms(1) this, of br]
    obtain ys where ys: "latency_batch H eps_wait br (?A ! b) = Inr ys" "length ys = H"
      "list_all (\<lambda>y. length y = klen) ys" by blast
    then have R: "?R ! b = map (\<lambda>x. [x]) ys" using b sh(1) by simp
    show "length (?R ! b) = H" using R ys(2) by simp
    fix i assume i: "i < H"
    show "length (?R ! b ! i) = 1" using R ys(2) i by simp
    fix j :: nat assume "j < 1"
    then show "length (?R ! b ! i ! j) = klen"
      using R ys(2,3) i by (simp add: list_all_length)
  qed
  then show "\<exists>alpha. mode_hard H eps_wait br 1 e_mono aw_prev = Inr alpha \<and>
            has_shape4 bs H 1 klen alpha"
    using mode_hard_latency [OF assms(1-3)] by simp
next
  fix b lm rm h
  let ?A = "hard_alpha e_mono aw_prev"
  note sh = hard_alpha_shape [OF assms(2,3)]
  assume b: "b < bs" and h: "h < H"
    and "index_min (concat (map nonzero (?A ! b))) = Inr lm"
    and "index_max (concat (map nonzero (?A ! b))) = Inr rm"
  then have "rm \<in> set (concat (map nonzero (?A ! b)))"
    by (metis index_max_Inr_iff Max_in List.finite_set set_empty)
  moreover have "list_all (\<lambda>x. length x = klen) (?A ! b)"
    using b sh(2,4) by (simp add: list_all_length)
  ultimately have "rm < klen" by (rule all_nonzero_bound [rotated])
  moreover have len: "length (?A ! b ! h) = klen" using sh(4) b h by simp
  ultimately have "rm < length (?A ! b ! h)" by simp
  from latency_target_in_range [OF assms(1) this, of "br = None"
      "boundary_threshold br eps_wait (int klen - 1)" lm]
  show "case latency_target (br = None) eps_wait
               (boundary_threshold br eps_wait (int klen - 1)) lm rm (?A ! b ! h) of
          Inl err \<Rightarrow> False
        | Inr None \<Rightarrow> True
        | Inr (Some (rs, i)) \<Rightarrow> 0 \<le> i \<and> i < int klen"
    unfolding len .
next
  show "0 \<le> boundary_threshold br eps_wait (int klen - 1)"
    using assms(4) by (simp add: boundary_threshold_def vertical_latency_def)
  show "boundary_threshold br eps_wait (int klen - 1) < int klen"
    by (simp add: boundary_threshold_def vertical_latency_def)
qed

lemmas hard_eval =
  mode_hard_def hard_alpha_def hard_row_def sigmoid_ge_half' cumsum_def
  exclusive_cumprod_def cumprod_def latency_batch_def boundary_threshold_def
  vertical_latency_def size1_def nonzero_def index_min_def index_max_def
  latency_head_def latency_target_def set_item_def Let_def eval_nat_numeral

theorem latency_control_in_bounds_witness:
  "(0::int) < 2 \<and> (0::nat) < 6 \<and>
   has_shape4 1 3 1 6 [[[[- 1, 1, - 1, - 1, - 1, - 1 :: real]], [[- 1, - 1, - 1, - 1, - 1, - 1]],
         [[- 1, - 1, - 1, - 1, - 1, 1]]]] \<and>
   has_shape4 1 3 1 6 [[[[1, 0, 0, 0, 0, 0 :: real]], [[1, 0, 0, 0, 0, 0]], [[1, 0, 0, 0, 0, 0]]]] \<and>
   mode_hard 3 2 None 1
       [[[[- 1, 1, - 1, - 1, - 1, - 1]], [[- 1, - 1, - 1, - 1, - 1, - 1]],
         [[- 1, - 1, - 1, - 1, - 1, 1]]]]
       [[[[1, 0, 0, 0, 0, 0]], [[1, 0, 0, 0, 0, 0]], [[1, 0, 0, 0, 0, 0]]]] =
     Inr [[[[0, 1, 0, 0, 0, 0]], [[0, 0, 0, 1, 0, 0]], [[0, 0, 0, 1, 0, 0]]]]"
  using latency_control_in_bounds [of 2 1 3 6
       "[[[[- 1, 1, - 1, - 1, - 1, - 1]], [[- 1, - 1, - 1, - 1, - 1, - 1]],
         [[- 1, - 1, - 1, - 1, - 1, 1]]]]"
       "[[[[1, 0, 0, 0, 0, 0]], [[1, 0, 0, 0, 0, 0]], [[1, 0, 0, 0, 0, 0]]]]" None]
  by (simp add: has_shape4_def hard_eval)

text \<open>
  Claim C3, as amended.  In \<open>hard\<close> mode with \<open>eps_wait > 0\<close> the argument
  \<open>boundary_rightmost\<close> has no effect on \<open>alpha\<close> (the vertical latency control is
  switched off by the flag \<open>vertical_latency = False\<close>).  The bound that holds is within
  the layer: with one-hot or zero rows of \<open>aw_prev\<close>, for every batch element in which
  some head selects a boundary, every head's boundary after the latency control lies no
  later than \<open>leftmost + eps_wait\<close>, \<open>leftmost\<close> being the earliest boundary that the heads
  of that element select.
\<close>

theorem latency_control_within_layer:
  assumes "0 < eps_wait" "has_shape4 bs H 1 klen e_mono" "has_shape4 bs H 1 klen aw_prev"
    "list_all (list_all (list_all one_hot_or_zero)) aw_prev"
  shows "mode_hard H eps_wait boundary_rightmost 1 e_mono aw_prev =
           mode_hard H eps_wait None 1 e_mono aw_prev \<and>
         (\<exists>alpha. mode_hard H eps_wait boundary_rightmost 1 e_mono aw_prev = Inr alpha \<and>
            (\<forall>b<bs. \<forall>lm.
               index_min (concat (map nonzero (hard_alpha e_mono aw_prev ! b))) = Inr lm \<longrightarrow>
               (\<forall>h<H. \<forall>j<klen. alpha ! b ! h ! 0 ! j \<noteq> 0 \<longrightarrow> int j \<le> int lm + eps_wait)))"
proof (intro conjI exI allI impI)
  show "mode_hard H eps_wait boundary_rightmost 1 e_mono aw_prev =
        mode_hard H eps_wait None 1 e_mono aw_prev"
  proof -
    have "latency_batch H eps_wait boundary_rightmost = latency_batch H eps_wait None"
      by (rule ext) (rule latency_batch_ignores_boundary_rightmost)
    then show ?thesis unfolding mode_hard_def by (simp only:)
  qed
next
  show "mode_hard H eps_wait boundary_rightmost 1 e_mono aw_prev =
        Inr (map (\<lambda>xs. map (\<lambda>x. [x]) (projr (latency_batch H eps_wait boundary_rightmost xs)))
               (hard_alpha e_mono aw_prev))"
    by (rule mode_hard_latency [OF assms(1-3)])
next
  fix b lm h j
  let ?A = "hard_alpha e_mono aw_prev"
  let ?R = "map (\<lambda>xs. map (\<lambda>x. [x]) (projr (latency_batch H eps_wait boundary_rightmost xs))) ?A"
  note sh = hard_alpha_shape [OF assms(2,3)]
  assume b: "b < bs" and h: "h < H" and j: "j < klen"
    and lm: "index_min (concat (map nonzero (?A ! b))) = Inr lm"
    and nz: "?R ! b ! h ! 0 ! j \<noteq> 0"
  have len: "length (?A ! b) = H" "list_all (\<lambda>x. length x = klen) (?A ! b)"
    using b sh(2,4) by (simp_all add: list_all_length)
  have oh: "list_all one_hot_or_zero (?A ! b)"
    unfolding list_all_length
  proof (intro allI impI)
    fix i assume "i < length (?A ! b)"
    with len have i: "i < H" by simp
    have "one_hot_or_zero (aw_prev ! b ! i ! 0)"
      using assms(4) has_shape4_nth [OF assms(3)] b i by (simp add: list_all_length)
    moreover have "length (aw_prev ! b ! i ! 0) = length (e_mono ! b ! i ! 0)"
      using has_shape4_nth(4) [OF assms(3), of b i 0] has_shape4_nth(4) [OF assms(2), of b i 0] b i
      by simp
    ultimately show "one_hot_or_zero (?A ! b ! i)"
      using sh(3) [OF b i] by (simp add: hard_row_one_hot_or_zero)
  qed
  from latency_batch_one_hot [OF assms(1) len oh, of boundary_rightmost] lm
  obtain ys where ys: "latency_batch H eps_wait boundary_rightmost (?A ! b) = Inr ys" "length ys = H"
    "list_all (\<lambda>y. \<forall>j<klen. y ! j \<noteq> 0 \<longrightarrow> int j \<le> int lm + eps_wait) ys"
    by blast
  have "?R ! b ! h ! 0 = ys ! h" using b h sh(1) ys(1,2) by simp
  with nz ys(2,3) h j show "int j \<le> int lm + eps_wait"
    by (simp add: list_all_length)
qed

theorem latency_control_within_layer_witness:
  "(0::int) < 2 \<and>
   has_shape4 1 3 1 6 [[[[- 1, 1, - 1, - 1, - 1, - 1 :: real]], [[- 1, - 1, - 1, - 1, - 1, - 1]],
         [[- 1, - 1, - 1, - 1, - 1, 1]]]] \<and>
   has_shape4 1 3 1 6 [[[[1, 0, 0, 0, 0, 0 :: real]], [[1, 0, 0, 0, 0, 0]], [[1, 0, 0, 0, 0, 0]]]] \<and>
   list_all (list_all (list_all one_hot_or_zero))
     [[[[1, 0, 0, 0, 0, 0]], [[1, 0, 0, 0, 0, 0]], [[1, 0, 0, 0, 0, 0]]]] \<and>
   mode_hard 3 2 (Some 0) 1
       [[[[- 1, 1, - 1, - 1, - 1, - 1]], [[- 1, - 1, - 1, - 1, - 1, - 1]],
         [[- 1, - 1, - 1, - 1, - 1, 1]]]]
       [[[[1, 0, 0, 0, 0, 0]], [[1, 0, 0, 0, 0, 0]], [[1, 0, 0, 0, 0, 0]]]] =
     Inr [[[[0, 1, 0, 0, 0, 0]], [[0, 0, 0, 1, 0, 0]], [[0, 0, 0, 1, 0, 0]]]] \<and>
   index_min (concat (map nonzero (hard_alpha
       [[[[- 1, 1, - 1, - 1, - 1, - 1]], [[- 1, - 1, - 1, - 1, - 1, - 1]],
         [[- 1, - 1, - 1, - 1, - 1, 1]]]]
       [[[[1, 0, 0, 0, 0, 0]], [[1, 0, 0, 0, 0, 0]], [[1, 0, 0, 0, 0, 0]]]] ! 0))) = Inr 1"
  using latency_control_within_layer [of 2 1 3 6
       "[[[[- 1, 1, - 1, - 1, - 1, - 1]], [[- 1, - 1, - 1, - 1, - 1, - 1]],
         [[- 1, - 1, - 1, - 1, - 1, 1]]]]"
       "[[[[1, 0, 0, 0, 0, 0]], [[1, 0, 0, 0, 0, 0]], [[1, 0, 0, 0, 0, 0]]]]" "Some 0"]
  by (simp add: has_shape4_def one_hot_or_zero_def hard_eval)

lemma example_module_eq:
  "example_module =
     \<lparr>mo_chunk_size = 1, mo_milk = False, mo_n_heads_mono = 1, mo_n_heads_chunk = 1, mo_d_k = 1,
      mo_eps = 1 / 1000000, mo_noise_std = 1, mo_no_denom = False, mo_sharpening_factor = 1,
      mo_decot = False, mo_lookahead = 2,
      mo_monotonic_energy =
        \<lparr>sc_atype = ''scaled_dot'', sc_n_heads = 1, sc_d_k = 1, sc_scale = 1,
         sc_w_key = (\<lambda>x. x), sc_w_query = (\<lambda>x. x), sc_v = (\<lambda>x. x), sc_r = Some (- 4),
         sc_conv1d_layer = None, sc_key_cache = None, sc_mask_cache = None\<rparr>,
      mo_chunk_energy = None, mo_w_value = (\<lambda>x. x), mo_w_out = (\<lambda>x. x),
      mo_dropout = 0, mo_dropout_head = 0, mo_training = False\<rparr>"
  by (simp add: example_module_def example_args_def identity_layers_def MoChA_init_def
      MonotonicEnergy_init_def)

lemma example_init:
  "MoChA_init example_args identity_layers identity_layers (\<lambda>x. x) (\<lambda>x. x) False =
   Inr example_module"
  by (simp add: example_module_def example_args_def identity_layers_def MoChA_init_def
      MonotonicEnergy_init_def)

lemma example_energy:
  "map_sum id fst (MonotonicEnergy_forward (mo_monotonic_energy example_module)
       [[[3], [3], [3], [3], [5]]] [[[1]]] None False) = Inr [[[[- 1, - 1, - 1, - 1, 1]]]]"
  by (simp add: example_module_eq MonotonicEnergy_forward_def precompute_def apply_mask_def
      dot_def has_shape4_def split_heads_def size1_def upt_rec [of _ "numeral _"])

lemmas forward_eval =
  MoChA_forward_def MonotonicEnergy_forward_def precompute_def apply_mask_def masked_fill_def
  bmap2_def expand_to_def dot_def has_shape4_def split_heads_def size1_def select_alpha_def
  chunk_stage_def context_vector_def context_b_def matmul_def col_def default_aw_prev_def
  no_draws_def

theorem boundary_rightmost_not_enforced:
  "map_sum id fst
     (MoChA_forward example_module [[[3], [3], [3], [3], [5]]] [[[1], [2], [3], [4], [5]]] [[[1]]]
        None None ''hard'' False None 1 (Some 0) no_draws) =
   Inr ([[[5]]], [[[[0, 0, 0, 0, 1]]]], None)"
  by (simp add: example_module_eq forward_eval hard_eval)

section \<open>Soft modes\<close>

subsection \<open>The recursive mode on one query\<close>

lemma recursive_inner_step:
  "assign_col 0 (Suc j)
     (bc (+) (bc (*) (col j (slice1 0 [s])) (col j (slice1 0 [q]))) (col j [a])) [q] =
   [q[Suc j := s ! j * q ! j + a ! j]]"
  by (simp add: assign_col_def bc_def col_def slice1_def)

lemma recursive_q_row:
  "recursive_q klen 0 [s] [a] =
   [fold (\<lambda>j q. q[Suc j := s ! j * q ! j + a ! j]) [0 ..< klen] (replicate (klen + 1) 0)]"
proof -
  have "fold (\<lambda>j q. assign_col 0 (j + 1)
                    (bc (+) (bc (*) (col j (slice1 0 [s])) (col j (slice1 0 q))) (col j [a])) q)
          js [q0] =
        [fold (\<lambda>j q. q[Suc j := s ! j * q ! j + a ! j]) js q0]" for js q0
    by (induction js arbitrary: q0) (simp_all add: recursive_inner_step)
  then show ?thesis by (simp add: recursive_q_def)
qed

lemma shifted_nth:
  "n < length p \<Longrightarrow>
   (1 # map (\<lambda>x. 1 - x) (butlast p)) ! n = (if n = 0 then 1 else 1 - p ! (n - 1))"
  by (cases n) (simp_all add: nth_butlast)

lemma fold_q_nth:
  assumes "n \<le> length p"
  shows "length (fold (\<lambda>j q. q[Suc j := (1 # map (\<lambda>x. 1 - x) (butlast p)) ! j * q ! j + a ! j])
                   [0 ..< n] (replicate (length p + 1) 0)) = length p + 1 \<and>
         (\<forall>m\<le>length p.
            fold (\<lambda>j q. q[Suc j := (1 # map (\<lambda>x. 1 - x) (butlast p)) ! j * q ! j + a ! j])
              [0 ..< n] (replicate (length p + 1) 0) ! m =
            (if m \<le> n then monotonic_q p a m else 0))"
  using assms
proof (induction n)
  case 0
  then show ?case by (auto simp: nth_replicate)
next
  case (Suc n)
  let ?s = "1 # map (\<lambda>x. 1 - x) (butlast p)"
  let ?f = "\<lambda>j q. q[Suc j := ?s ! j * q ! j + a ! j]"
  let ?q = "fold ?f [0 ..< n] (replicate (length p + 1) 0)"
  from Suc have ih: "length ?q = length p + 1"
    "\<forall>m\<le>length p. ?q ! m = (if m \<le> n then monotonic_q p a m else 0)"
    by simp_all
  have step: "fold ?f [0 ..< Suc n] (replicate (length p + 1) 0) = ?q[Suc n := ?s ! n * ?q ! n + a ! n]"
    by simp
  show ?case
    unfolding step
  proof (intro conjI allI impI)
    show "length (?q[Suc n := ?s ! n * ?q ! n + a ! n]) = length p + 1" using ih(1) by simp
  next
    fix m assume m: "m \<le> length p"
    show "?q[Suc n := ?s ! n * ?q ! n + a ! n] ! m =
          (if m \<le> Suc n then monotonic_q p a m else 0)"
    proof (cases "m = Suc n")
      case True
      have qn: "?q ! n = monotonic_q p a n"
        using ih(2) Suc.prems by simp
      have sn: "?s ! n = (if n = 0 then 1 else 1 - p ! (n - 1))"
        using Suc.prems by (intro shifted_nth) simp
      have "?q[Suc n := ?s ! n * ?q ! n + a ! n] ! Suc n = ?s ! n * ?q ! n + a ! n"
        using ih(1) Suc.prems by simp
      then show ?thesis unfolding True qn sn by simp
    next
      case False
      then show ?thesis using ih m by (simp add: nth_list_update)
    qed
  qed
qed

lemma recursive_step_row:
  assumes "length a = length p"
  shows "recursive_step (length p) [p] 0 [a] =
         [map (\<lambda>j. p ! j * monotonic_q p a (Suc j)) [0 ..< length p]]"
proof -
  let ?s = "1 # map (\<lambda>x. 1 - x) (butlast p)"
  let ?q = "fold (\<lambda>j q. q[Suc j := ?s ! j * q ! j + a ! j]) [0 ..< length p]
              (replicate (length p + 1) 0)"
  note q = fold_q_nth [of "length p" p a, simplified]
  have "recursive_step (length p) [p] 0 [a] = [map2 (*) p (tl ?q)]"
    by (simp add: recursive_step_def recursive_q_row slice1_def bc_def)
  also have "map2 (*) p (tl ?q) = map (\<lambda>j. p ! j * monotonic_q p a (Suc j)) [0 ..< length p]"
  proof (rule nth_equalityI)
    show "length (map2 (*) p (tl ?q)) = length (map (\<lambda>j. p ! j * monotonic_q p a (Suc j)) [0 ..< length p])"
      using q by simp
  next
    fix j assume "j < length (map2 (*) p (tl ?q))"
    then have j: "j < length p" by simp
    then have "tl ?q ! j = ?q ! Suc j" using q by (simp add: nth_tl)
    also have "\<dots> = monotonic_q p a (Suc j)" using q j by (simp del: monotonic_q.simps)
    finally show "map2 (*) p (tl ?q) ! j = map (\<lambda>j. p ! j * monotonic_q p a (Suc j)) [0 ..< length p] ! j"
      using j q by (simp del: monotonic_q.simps)
  qed
  finally show ?thesis .
qed

lemma monotonic_q_closed:
  assumes "\<forall>k\<le>j. (\<Prod>m<k. 1 - p ! m) \<noteq> 0"
  shows "monotonic_q p a (Suc j) =
         (\<Prod>m<j. 1 - p ! m) * (\<Sum>k\<le>j. a ! k / (\<Prod>m<k. 1 - p ! m))"
  using assms
proof (induction j)
  case 0
  then show ?case by simp
next
  case (Suc j)
  let ?c = "\<lambda>k. (\<Prod>m<k. 1 - p ! m)"
  from Suc.prems have nz: "?c (Suc j) \<noteq> 0" by (metis le_refl)
  from Suc.prems have prev: "\<forall>k\<le>j. ?c k \<noteq> 0" by (metis le_SucI)
  have ih: "monotonic_q p a (Suc j) = ?c j * (\<Sum>k\<le>j. a ! k / ?c k)"
    using Suc.IH [OF prev] .
  have "monotonic_q p a (Suc (Suc j)) = (1 - p ! j) * monotonic_q p a (Suc j) + a ! Suc j"
    by simp
  also have "\<dots> = ?c (Suc j) * (\<Sum>k\<le>j. a ! k / ?c k) + a ! Suc j"
    unfolding ih by simp
  also have "\<dots> = ?c (Suc j) * ((\<Sum>k\<le>j. a ! k / ?c k) + a ! Suc j / ?c (Suc j))"
    using nz by (simp add: distrib_left del: prod.lessThan_Suc)
  also have "\<dots> = ?c (Suc j) * (\<Sum>k\<le>Suc j. a ! k / ?c k)"
    by (simp del: prod.lessThan_Suc)
  finally show ?case .
qed

subsection \<open>The parallel mode on one query\<close>

lemma parallel_step_row:
  assumes "length a = length p" "length p \<le> length c"
  shows "parallel_step False eps None [p] [c] 0 [a] =
         [map (\<lambda>j. p ! j * c ! j * (\<Sum>k\<le>j. a ! k / clamp (c ! k) eps 1)) [0 ..< length p]]"
proof -
  have "parallel_step False eps None [p] [c] 0 [a] =
        [map2 (*) (map2 (*) p c) (cumsum (map2 (/) a (map (\<lambda>c. clamp c eps 1) c)))]"
    by (simp add: parallel_step_def slice1_def bc_def)
  also have "map2 (*) (map2 (*) p c) (cumsum (map2 (/) a (map (\<lambda>c. clamp c eps 1) c))) =
        map (\<lambda>j. p ! j * c ! j * (\<Sum>k\<le>j. a ! k / clamp (c ! k) eps 1)) [0 ..< length p]"
  proof (rule nth_equalityI)
    show "length (map2 (*) (map2 (*) p c) (cumsum (map2 (/) a (map (\<lambda>c. clamp c eps 1) c)))) =
          length (map (\<lambda>j. p ! j * c ! j * (\<Sum>k\<le>j. a ! k / clamp (c ! k) eps 1)) [0 ..< length p])"
      using assms by simp
  next
    fix j assume "j < length (map2 (*) (map2 (*) p c) (cumsum (map2 (/) a (map (\<lambda>c. clamp c eps 1) c))))"
    then have j: "j < length p" using assms by simp
    have "cumsum (map2 (/) a (map (\<lambda>c. clamp c eps 1) c)) ! j =
          (\<Sum>k\<le>j. map2 (/) a (map (\<lambda>c. clamp c eps 1) c) ! k)"
      using j assms by (simp add: cumsum_nth)
    also have "\<dots> = (\<Sum>k\<le>j. a ! k / clamp (c ! k) eps 1)"
      using j assms by (intro sum.cong refl) simp
    finally show "map2 (*) (map2 (*) p c) (cumsum (map2 (/) a (map (\<lambda>c. clamp c eps 1) c))) ! j =
        map (\<lambda>j. p ! j * c ! j * (\<Sum>k\<le>j. a ! k / clamp (c ! k) eps 1)) [0 ..< length p] ! j"
      using j assms by simp
  qed
  finally show ?thesis .
qed




lemma one_row: "length m = 1 \<Longrightarrow> m = [m ! 0]"
  by (cases m) simp_all



lemma sigmoid_ln: "0 < x \<Longrightarrow> sigmoid (ln x) = x / (1 + x)"
  by (simp add: sigmoid_def exp_minus field_simps)

lemma torch_sigmoid_ln:
  "0 < x \<Longrightarrow> 1 / 2 ^ 150 \<le> x / (1 + x) \<Longrightarrow> torch_sigmoid (ln x) = x / (1 + x)"
  by (simp add: torch_sigmoid_def sigmoid_ln)

lemma torch_sigmoid_ge_half: "torch_sigmoid x \<ge> 1 / 2 \<longleftrightarrow> sigmoid x \<ge> 1 / 2"
  by (simp add: torch_sigmoid_def)

lemma torch_sigmoid_0: "torch_sigmoid 0 = 1 / 2"
  by (simp add: torch_sigmoid_def sigmoid_def)


lemma mode_parallel_single:
  assumes "length a = length p"
  shows "mode_parallel False eps decot lookahead None (Suc 0) [[[p]]] [[[a]]] =
         [[[map (\<lambda>j. p ! j * safe_cumprod (map (\<lambda>y. 1 - y) p) eps ! j *
                     (\<Sum>k\<le>j. a ! k / clamp (safe_cumprod (map (\<lambda>y. 1 - y) p) eps ! k) eps 1))
              [0 ..< length p]]]]"
proof -
  have "length p \<le> length (safe_cumprod (map (\<lambda>y. 1 - y) p) eps)"
    by (simp add: safe_cumprod_def exclusive_cumsum_def)
  from parallel_step_row [OF assms this, of eps] show ?thesis
    by (simp add: mode_parallel_def cat_rows_def)
qed



subsection \<open>The recursive mode beyond one query\<close>

lemma length_assign_col [simp]: "length (assign_col i c vals m) = length m"
  by (simp add: assign_col_def)

lemma length_recursive_q [simp]: "length (recursive_q klen i s aw) = 1"
proof -
  have "length (fold (\<lambda>j q. assign_col i (j + 1)
            (bc (+) (bc (*) (col j (slice1 i s)) (col j (slice1 i q))) (col j aw)) q) js q0) =
        length q0" for js q0
    by (induction js arbitrary: q0) simp_all
  then show ?thesis by (simp add: recursive_q_def)
qed

lemma bc_Nil [simp]: "bc f xs [] = []"
  by (simp add: bc_def)

lemma recursive_step_later: "recursive_step klen p (Suc i) aw = []"
  by (simp add: recursive_step_def Let_def slice1_def)

lemma length_recursive_step: "length (recursive_step klen p i aw) \<le> 1"
  by (simp add: recursive_step_def Let_def slice1_def bc_def)

lemma recursive_rows_later:
  "recursive_rows klen p (map Suc js) aw = replicate (length js) []"
  by (induction js arbitrary: aw) (simp_all add: recursive_step_later)

lemma recursive_rows_all:
  assumes "0 < qlen"
  shows "cat_rows qlen (recursive_rows klen p [0 ..< qlen] aw) = recursive_step klen p 0 aw"
proof -
  from assms obtain n where n: "qlen = Suc n" by (cases qlen) auto
  have "[0 ..< Suc n] = 0 # map Suc [0 ..< n]"
    by (simp only: upt_conv_Cons [of 0 "Suc n"] map_Suc_upt zero_less_Suc)
  then have "recursive_rows klen p [0 ..< qlen] aw =
        recursive_step klen p 0 aw # replicate n []"
    using n by (simp add: recursive_rows_later Let_def)
  then show ?thesis using n by (cases n) (simp_all add: cat_rows_def)
qed

text \<open>
  Whatever the number of queries, the \<open>alpha\<close> of the recursive mode has at most one row
  per batch element and head.
\<close>

lemma mode_recursive_rows:
  assumes "0 < qlen" "x \<in> set (mode_recursive qlen klen p_choose aw_prev)" "y \<in> set x"
  shows "length y \<le> 1"
proof -
  from assms(2) obtain pb ab where x: "x = map2 (\<lambda>p aw. cat_rows qlen (recursive_rows klen p [0 ..< qlen] aw)) pb ab"
    by (auto simp: mode_recursive_def dest!: set_zip_leftD [rotated] elim!: in_set_zipE)
  with assms(3) obtain p aw where "y = cat_rows qlen (recursive_rows klen p [0 ..< qlen] aw)"
    by auto
  then show ?thesis
    using recursive_rows_all [OF assms(1)] length_recursive_step by simp
qed

text \<open>
  Hence with two or more queries (and a nonempty batch and at least one head) a call of
  \<open>forward\<close> in recursive mode cannot pass the final shape assertion on \<open>alpha\<close>: it
  ends in an error.
\<close>

lemma recursive_mode_fails_beyond_one_query:
  assumes "2 \<le> size1 query" "key \<noteq> []" "0 < mo_n_heads_mono m"
  shows "\<exists>err. MoChA_forward m key value query msk aw_prev ''recursive'' cache trigger_point
           eps_wait boundary_rightmost rnd = Inl err"
proof -
  have no: "\<not> has_shape4 (length key) (mo_n_heads_mono m) (size1 query) klen
              (mode_recursive (size1 query) klen p aw)" for klen p aw
  proof
    assume sh: "has_shape4 (length key) (mo_n_heads_mono m) (size1 query) klen
              (mode_recursive (size1 query) klen p aw)"
    let ?A = "mode_recursive (size1 query) klen p aw"
    from sh assms(2) have "0 < length ?A" by (simp add: has_shape4_def)
    then have a: "?A ! 0 \<in> set ?A" by simp
    from has_shape4_nth(2) [OF sh, of 0] assms(2,3) have "0 < length (?A ! 0)" by simp
    then have b: "?A ! 0 ! 0 \<in> set (?A ! 0)" by simp
    from has_shape4_nth(3) [OF sh, of 0 0] assms(2,3) have "length (?A ! 0 ! 0) = size1 query"
      by simp
    moreover from mode_recursive_rows [OF _ a b] assms(1) have "length (?A ! 0 ! 0) \<le> 1" by simp
    ultimately show False using assms(1) by simp
  qed
  show ?thesis
    using assms(1) no
    by (auto simp: MoChA_forward_def select_alpha_def Let_def split: sum.splits prod.splits)
qed

lemma mode_recursive_first_row:
  assumes "0 < qlen" "P \<noteq> []" "length a = length (P ! 0)" "klen = length (P ! 0)"
  shows "mode_recursive qlen klen [[P]] [[[a]]] =
         [[[map (\<lambda>j. P ! 0 ! j * monotonic_q (P ! 0) a (Suc j)) [0 ..< klen]]]]"
proof -
  have "slice1 0 P = [P ! 0]" using assms(2) by (cases P) (simp_all add: slice1_def)
  then have "recursive_step klen P 0 [a] = recursive_step klen [P ! 0] 0 [a]"
    by (simp add: recursive_step_def slice1_def)
  with recursive_step_row [OF assms(3)] assms(4) recursive_rows_all [OF assms(1)]
  show ?thesis by (simp add: mode_recursive_def)
qed

lemma recursive_two_queries_fails:
  "MoChA_forward example_module [[[4], [4]]] [[[1], [1]]] [[[1], [1]]]
        None None ''recursive'' False None (- 1) None
        \<lparr>dr_noise = [[[[0, 0], [0, 0]]]], dr_head = [], dr_keep = []\<rparr> = Inl AssertionError"
  by (simp add: example_module_eq forward_eval Let_def mode_recursive_first_row torch_sigmoid_0)

section \<open>The context vector\<close>

lemma sequence_Inr_nth:
  "sequence rs = Inr zs \<Longrightarrow> length zs = length rs \<and> (\<forall>i<length rs. rs ! i = Inr (zs ! i))"
proof (induction rs arbitrary: zs)
  case Nil
  then show ?case by simp
next
  case (Cons r rs)
  then obtain z zs' where z: "r = Inr z" "sequence rs = Inr zs'" "zs = z # zs'"
    by (auto split: sum.splits)
  from Cons.IH [OF z(2)] z show ?case by (auto simp: nth_Cons split: nat.splits)
qed

lemma matmul_nth:
  assumes "i < length a" "length (a ! i) = length v"
  shows "matmul a v ! i = weighted_sum (a ! i) v"
proof -
  have "sum_list (map2 (*) (a ! i) (col d v)) = (\<Sum>j<length v. a ! i ! j * v ! j ! d)" for d
  proof -
    have "sum_list (map2 (*) (a ! i) (col d v)) =
          (\<Sum>j<length (map2 (*) (a ! i) (col d v)). map2 (*) (a ! i) (col d v) ! j)"
      by (simp only: sum_list_sum_nth atLeast0LessThan)
    also have "\<dots> = (\<Sum>j<length v. a ! i ! j * v ! j ! d)"
      using assms(2) by (intro sum.cong) (simp_all add: col_def)
    finally show ?thesis .
  qed
  then show ?thesis using assms(1) by (simp add: matmul_def weighted_sum_def)
qed

lemma length_matmul [simp]: "length (matmul a v) = length a"
  by (simp add: matmul_def)

lemma context_b_single:
  assumes "mo_n_heads_mono m * mo_n_heads_chunk m \<le> 1" "context_b m w value = Inr c"
  shows "length w = 1 \<and> c = matmul (w ! 0) value"
  using assms by (auto simp: context_b_def split: if_splits)

lemma split_heads_nth:
  "h < H \<Longrightarrow> split_heads H dk x ! h = map (\<lambda>u. take dk (drop (h * dk) u)) x"
  by (simp add: split_heads_def)

lemma length_split_heads [simp]: "length (split_heads H dk x) = H"
  by (simp add: split_heads_def)

lemma bc_left_one: "length xs = 1 \<Longrightarrow> length ys \<noteq> 1 \<Longrightarrow> bc f xs ys = map (f (hd xs)) ys"
  by (auto simp: bc_def)

lemma context_b_multi:
  assumes "1 < mo_n_heads_mono m * mo_n_heads_chunk m" "context_b m w value = Inr c"
    "length w = mo_n_heads_mono m" "\<forall>a\<in>set w. length a = qlen"
  shows "c = map (\<lambda>i. mo_w_out m (concat (map (\<lambda>h.
                 matmul (w ! (if mo_n_heads_mono m = 1 then 0 else h))
                   (split_heads (mo_n_heads_mono m * mo_n_heads_chunk m) (mo_d_k m)
                      (map (mo_w_value m) value) ! h) ! i)
               [0 ..< mo_n_heads_mono m * mo_n_heads_chunk m]))) [0 ..< qlen] \<and>
         (mo_n_heads_mono m = 1 \<or> mo_n_heads_mono m = mo_n_heads_mono m * mo_n_heads_chunk m)"
proof -
  let ?H = "mo_n_heads_mono m * mo_n_heads_chunk m"
  let ?vh = "split_heads ?H (mo_d_k m) (map (mo_w_value m) value)"
  let ?cv = "bc matmul w ?vh"
  from assms(1,2) have ok: "length w = ?H \<or> length w = 1"
    and c: "c = map (\<lambda>i. mo_w_out m (concat (map (\<lambda>c. c ! i) ?cv))) [0 ..< size1 ?cv]"
    by (auto simp: context_b_def Let_def split: if_splits)
  have H0: "0 < ?H" using assms(1) less_trans zero_less_one by blast
  have w0: "w \<noteq> []" using ok H0 by auto
  have cv: "?cv = map (\<lambda>h. matmul (w ! (if mo_n_heads_mono m = 1 then 0 else h)) (?vh ! h)) [0 ..< ?H]"
  proof (cases "length w = ?H")
    case True
    then have "?cv = map2 matmul w ?vh" by (simp add: bc_def)
    also have "\<dots> = map (\<lambda>h. matmul (w ! h) (?vh ! h)) [0 ..< ?H]"
      using True by (intro nth_equalityI) simp_all
    also have "\<dots> = map (\<lambda>h. matmul (w ! (if mo_n_heads_mono m = 1 then 0 else h)) (?vh ! h)) [0 ..< ?H]"
      using True assms(1,3) by (intro map_cong refl) auto
    finally show ?thesis .
  next
    case False
    with ok have l1: "length w = 1" by simp
    from False l1 have "length ?vh \<noteq> 1" by (simp only: length_split_heads)
    with l1 have "?cv = map (matmul (hd w)) ?vh" by (rule bc_left_one)
    also have "\<dots> = map (\<lambda>h. matmul (w ! 0) (?vh ! h)) [0 ..< ?H]"
      using w0 by (intro nth_equalityI) (simp_all add: hd_conv_nth)
    finally show ?thesis using l1 assms(3) by simp
  qed
  have "size1 ?cv = qlen"
  proof -
    have "?cv ! 0 = matmul (w ! (if mo_n_heads_mono m = 1 then 0 else 0)) (?vh ! 0)"
      unfolding cv using H0 by simp
    then have "length (?cv ! 0) = length (w ! 0)" by simp
    moreover have "length (w ! 0) = qlen" using assms(4) w0 by simp
    moreover have "?cv \<noteq> []" unfolding cv using H0 by simp
    ultimately show ?thesis by (cases ?cv) (simp_all add: size1_def)
  qed
  moreover have "map (\<lambda>c. c ! i) ?cv =
      map (\<lambda>h. matmul (w ! (if mo_n_heads_mono m = 1 then 0 else h)) (?vh ! h) ! i) [0 ..< ?H]" for i
    unfolding cv by simp
  ultimately show ?thesis using c ok assms(3) by auto
qed

lemma forward_chunk_size_one:
  assumes "mo_chunk_size m = 1" "\<not> mo_milk m"
    "MoChA_forward m key value query msk aw_prev mode cache trigger_point eps_wait
       boundary_rightmost rnd = Inr ((cv, alpha, beta), m')"
  shows "beta = None" "mo_chunk_energy m' = mo_chunk_energy m"
    "sequence (map2 (context_b m) alpha value) = Inr cv"
    "has_shape4 (length key) (mo_n_heads_mono m) (size1 query) (size1 key) alpha"
  using assms
  by (auto simp: MoChA_forward_def chunk_stage_def context_vector_def Let_def
      split: sum.splits prod.splits if_splits)

text \<open>
  Claim C8, as amended.  A module built with \<open>chunk_size = 1\<close> has no chunk scorer.  For
  a module with \<open>chunk_size = 1\<close> (and no infinite lookback), a call of \<open>forward\<close> that
  returns gives \<open>beta = None\<close> and leaves the module without chunk scorer; with a single
  head in total the context vector of every query is the \<open>alpha\<close>-weighted sum of the
  values; with several heads it is \<open>w_out\<close> applied to the concatenation, over the
  heads, of the \<open>alpha\<close>-weighted sums of the heads' slices of \<open>w_value(value)\<close>.
\<close>

theorem chunk_size_one_context:
  assumes "mo_chunk_size m = 1" "\<not> mo_milk m"
    "length value = length key" "list_all (\<lambda>x. length x = size1 key) value"
    "MoChA_forward m key value query msk aw_prev mode cache trigger_point eps_wait
       boundary_rightmost rnd = Inr ((cv, alpha, beta), m')"
  shows "beta = None \<and> mo_chunk_energy m' = mo_chunk_energy m \<and>
         (\<forall>a ml cl wv wo tr m0. MoChA_init a ml cl wv wo tr = Inr m0 \<longrightarrow> a_chunk_size a = 1 \<longrightarrow>
            mo_chunk_energy m0 = None \<and> mo_chunk_size m0 = 1 \<and> \<not> mo_milk m0) \<and>
         (mo_n_heads_mono m * mo_n_heads_chunk m \<le> 1 \<longrightarrow>
            (\<forall>b<length key. \<forall>i<size1 query.
               cv ! b ! i = weighted_sum (alpha ! b ! 0 ! i) (value ! b))) \<and>
         (1 < mo_n_heads_mono m * mo_n_heads_chunk m \<longrightarrow>
            (\<forall>b<length key. \<forall>i<size1 query.
               cv ! b ! i =
               mo_w_out m (concat (map (\<lambda>h.
                 weighted_sum (alpha ! b ! (if mo_n_heads_mono m = 1 then 0 else h) ! i)
                   (split_heads (mo_n_heads_mono m * mo_n_heads_chunk m) (mo_d_k m)
                      (map (mo_w_value m) (value ! b)) ! h))
                 [0 ..< mo_n_heads_mono m * mo_n_heads_chunk m]))))"
proof (intro conjI allI impI)
  note f = forward_chunk_size_one [OF assms(1,2,5)]
  note sh = has_shape4_nth [OF f(4)]
  show "beta = None" by (rule f(1))
  show "mo_chunk_energy m' = mo_chunk_energy m" by (rule f(2))
  have cvb: "context_b m (alpha ! b) (value ! b) = Inr (cv ! b)" if "b < length key" for b
  proof -
    from sequence_Inr_nth [OF f(3)] that sh(1) assms(3)
    have "map2 (context_b m) alpha value ! b = Inr (cv ! b)" by simp
    then show ?thesis using that sh(1) assms(3) by simp
  qed
  have vl: "length (value ! b) = size1 key" if "b < length key" for b
    using that assms(3,4) by (simp add: list_all_length)
  {
    fix b i assume single: "mo_n_heads_mono m * mo_n_heads_chunk m \<le> 1"
      and b: "b < length key" and i: "i < size1 query"
    from context_b_single [OF single cvb [OF b]]
    have l: "length (alpha ! b) = 1" and c: "cv ! b = matmul (alpha ! b ! 0) (value ! b)"
      by simp_all
    from l sh(2) [OF b] have H: "0 < mo_n_heads_mono m" by simp
    from sh(3) [OF b H] i have "i < length (alpha ! b ! 0)" by simp
    moreover from sh(4) [OF b H i] vl [OF b] have "length (alpha ! b ! 0 ! i) = length (value ! b)"
      by simp
    ultimately show "cv ! b ! i = weighted_sum (alpha ! b ! 0 ! i) (value ! b)"
      unfolding c by (rule matmul_nth)
  }
  {
    fix b i assume multi: "1 < mo_n_heads_mono m * mo_n_heads_chunk m"
      and b: "b < length key" and i: "i < size1 query"
    let ?H = "mo_n_heads_mono m * mo_n_heads_chunk m"
    let ?vh = "split_heads ?H (mo_d_k m) (map (mo_w_value m) (value ! b))"
    let ?ix = "\<lambda>h. if mo_n_heads_mono m = 1 then 0 else h"
    have rows: "\<forall>a\<in>set (alpha ! b). length a = size1 query"
      using sh(2) [OF b] sh(3) [OF b] by (auto simp: in_set_conv_nth)
    from context_b_multi [OF multi cvb [OF b] sh(2) [OF b] rows]
    have c: "cv ! b = map (\<lambda>i. mo_w_out m (concat (map (\<lambda>h.
                 matmul (alpha ! b ! ?ix h) (?vh ! h) ! i) [0 ..< ?H]))) [0 ..< size1 query]"
      and hm: "mo_n_heads_mono m = 1 \<or> mo_n_heads_mono m = ?H"
      by simp_all
    have eq: "map (\<lambda>h. matmul (alpha ! b ! ?ix h) (?vh ! h) ! i) [0 ..< ?H] =
          map (\<lambda>h. weighted_sum (alpha ! b ! ?ix h ! i) (?vh ! h)) [0 ..< ?H]"
    proof (rule map_cong [OF refl])
      fix h assume "h \<in> set [0 ..< ?H]"
      then have h: "h < ?H" by simp
      have ix: "?ix h < mo_n_heads_mono m"
      proof (cases "mo_n_heads_mono m = 1")
        case True
        then show ?thesis by simp
      next
        case False
        with hm have "mo_n_heads_mono m = ?H" by blast
        with h have "h < mo_n_heads_mono m" by metis
        with False show ?thesis by simp
      qed
      have "i < length (alpha ! b ! ?ix h)" using sh(3) [OF b ix] i by simp
      moreover have "length (alpha ! b ! ?ix h ! i) = length (?vh ! h)"
        using sh(4) [OF b ix i] vl [OF b] h by (simp add: split_heads_nth)
      ultimately show "matmul (alpha ! b ! ?ix h) (?vh ! h) ! i =
            weighted_sum (alpha ! b ! ?ix h ! i) (?vh ! h)"
        by (rule matmul_nth)
    qed
    have "cv ! b ! i = mo_w_out m (concat (map (\<lambda>h.
                 matmul (alpha ! b ! ?ix h) (?vh ! h) ! i) [0 ..< ?H]))"
      unfolding c using i by simp
    then show "cv ! b ! i = mo_w_out m (concat (map (\<lambda>h.
                 weighted_sum (alpha ! b ! ?ix h ! i) (?vh ! h)) [0 ..< ?H]))"
      by (simp only: eq)
  }
next
  fix a ml cl wv wo tr m0
  assume "MoChA_init a ml cl wv wo tr = Inr m0" "a_chunk_size a = 1"
  then show "mo_chunk_energy m0 = None" "mo_chunk_size m0 = 1" "\<not> mo_milk m0"
    by (auto simp: MoChA_init_def Let_def split: if_splits sum.splits)
qed

theorem chunk_size_one_context_witness:
  "mo_chunk_size example_module = 1 \<and> \<not> mo_milk example_module \<and>
   length [[[1], [2], [3], [4], [5 :: real]]] = length [[[3], [3], [3], [3], [5 :: real]]] \<and>
   list_all (\<lambda>x. length x = size1 [[[3], [3], [3], [3], [5 :: real]]]) [[[1], [2], [3], [4], [5 :: real]]] \<and>
   map_sum id fst
     (MoChA_forward example_module [[[3], [3], [3], [3], [5]]] [[[1], [2], [3], [4], [5]]] [[[1]]]
        None None ''hard'' False None (- 1) None no_draws) =
   Inr ([[[5]]], [[[[0, 0, 0, 0, 1]]]], None) \<and>
   weighted_sum [0, 0, 0, 0, 1] [[1], [2], [3], [4], [5]] = [5]"
proof -
  let ?K = "[[[3], [3], [3], [3], [5 :: real]]]" and ?V = "[[[1], [2], [3], [4], [5 :: real]]]"
  let ?F = "MoChA_forward example_module ?K ?V [[[1]]] None None ''hard'' False None (- 1) None no_draws"
  have ev: "map_sum id fst ?F = Inr ([[[5]]], [[[[0, 0, 0, 0, 1]]]], None)"
    by (simp add: example_module_eq forward_eval hard_eval)
  then obtain m' where fw: "?F = Inr (([[[5]]], [[[[0, 0, 0, 0, 1]]]], None), m')"
    by (cases ?F) auto
  have h: "mo_chunk_size example_module = 1" "\<not> mo_milk example_module"
    "length ?V = length ?K" "list_all (\<lambda>x. length x = size1 ?K) ?V"
    by (simp_all add: example_module_eq size1_def)
  from chunk_size_one_context [OF h fw]
  have "[[[5 :: real]]] ! 0 ! 0 = weighted_sum ([[[[0, 0, 0, 0, 1]]]] ! 0 ! 0 ! 0) (?V ! 0)"
    by (simp add: example_module_eq size1_def)
  then have "weighted_sum [0, 0, 0, 0, 1] [[1], [2], [3], [4], [5]] = [5]" by simp
  with h ev show ?thesis by (simp only: simp_thms)
qed

lemma two_head_module_eq:
  "two_head_module =
     \<lparr>mo_chunk_size = 1, mo_milk = False, mo_n_heads_mono = 2, mo_n_heads_chunk = 1, mo_d_k = 1,
      mo_eps = 1 / 1000000, mo_noise_std = 1, mo_no_denom = False, mo_sharpening_factor = 1,
      mo_decot = False, mo_lookahead = 2,
      mo_monotonic_energy =
        \<lparr>sc_atype = ''add'', sc_n_heads = 2, sc_d_k = 1, sc_scale = sqrt 2,
         sc_w_key = (\<lambda>x. x), sc_w_query = (\<lambda>x. x), sc_v = (\<lambda>x. x), sc_r = Some (- 4),
         sc_conv1d_layer = None, sc_key_cache = None, sc_mask_cache = None\<rparr>,
      mo_chunk_energy = None, mo_w_value = (\<lambda>x. x), mo_w_out = (\<lambda>x. x),
      mo_dropout = 0, mo_dropout_head = 0, mo_training = False\<rparr>"
  by (simp add: two_head_module_def example_args_def identity_layers_def MoChA_init_def
      MonotonicEnergy_init_def)

text \<open>
  Claim C8 as stated fails for a module with several heads.  With two heads, identity
  projections, keys \<open>[4, 0]\<close> and \<open>[0, 4]\<close> and values \<open>[1, 2]\<close> and \<open>[3, 4]\<close>, head 0
  selects key 0 and head 1 selects key 1; the context vector is \<open>[1, 4]\<close> (every head
  contributes its own slice), which is the \<open>alpha\<close>-weighted sum of the values for
  neither head (\<open>[1, 2]\<close> and \<open>[3, 4]\<close>).
\<close>

theorem context_of_two_heads:
  "map_sum id fst
     (MoChA_forward two_head_module [[[4, 0], [0, 4]]] [[[1, 2], [3, 4]]] [[[0, 0]]]
        None None ''hard'' False None (- 1) None no_draws) =
   Inr ([[[1, 4]]], [[[[1, 0]], [[0, 1]]]], None) \<and>
   weighted_sum [1, 0] [[1, 2], [3, 4]] = [1, 2] \<and>
   weighted_sum [0, 1] [[1, 2], [3, 4]] = [3, 4]"
  by (simp add: two_head_module_eq forward_eval hard_eval relu_def weighted_sum_def bc_def
      lessThan_Suc)


section \<open>Row sums of alpha\<close>

lemma monotonic_q_nonneg:
  assumes "\<forall>j<n. 0 \<le> p ! j \<and> p ! j \<le> 1" "\<forall>j<n. 0 \<le> a ! j" "m \<le> n"
  shows "0 \<le> monotonic_q p a m"
  using assms(3)
proof (induction m)
  case 0
  then show ?case by simp
next
  case (Suc m)
  then have ih: "0 \<le> monotonic_q p a m" and m: "m < n" by simp_all
  have "0 \<le> (if m = 0 then 1 else 1 - p ! (m - 1))"
    using assms(1) m by (auto simp: less_imp_diff_less)
  with ih assms(2) m show ?case by simp
qed

lemma monotonic_q_telescope:
  "(\<Sum>j<n. p ! j * monotonic_q p a (Suc j)) +
     (if n = 0 then 1 else 1 - p ! (n - 1)) * monotonic_q p a n = (\<Sum>j<n. a ! j)"
proof (induction n)
  case 0
  then show ?case by simp
next
  case (Suc n)
  have "(\<Sum>j<Suc n. p ! j * monotonic_q p a (Suc j)) + (1 - p ! n) * monotonic_q p a (Suc n) =
        (\<Sum>j<n. p ! j * monotonic_q p a (Suc j)) + monotonic_q p a (Suc n)"
    by (simp add: algebra_simps del: monotonic_q.simps)
  also have "\<dots> = (\<Sum>j<n. p ! j * monotonic_q p a (Suc j)) +
        (if n = 0 then 1 else 1 - p ! (n - 1)) * monotonic_q p a n + a ! n"
    by simp
  also have "\<dots> = (\<Sum>j<Suc n. a ! j)"
    unfolding Suc.IH by simp
  finally show ?case by (simp del: monotonic_q.simps sum.lessThan_Suc)
qed

lemma sum_list_map_upt: "sum_list (map f [0 ..< n]) = (\<Sum>j<n. f j)"
  by (simp add: interv_sum_list_conv_sum_set_nat atLeast0LessThan)

lemma sum_list_nth_real: "sum_list (a :: real list) = (\<Sum>j<length a. a ! j)"
  by (simp add: sum_list_sum_nth atLeast0LessThan)

text \<open>The row of the recurrence is a sub-distribution whenever \<open>aw_prev\<close> is one.\<close>

lemma recurrence_row_sub_distribution:
  assumes "list_all (\<lambda>x. 0 \<le> x \<and> x \<le> 1) p" "sub_distribution a" "length a = length p"
  shows "sub_distribution (map (\<lambda>j. p ! j * monotonic_q p a (Suc j)) [0 ..< length p])"
proof -
  let ?n = "length p"
  from assms have p: "\<forall>j<?n. 0 \<le> p ! j \<and> p ! j \<le> 1" and a: "\<forall>j<?n. 0 \<le> a ! j"
    and s: "sum_list a \<le> 1"
    by (simp_all add: list_all_length sub_distribution_def)
  have nn: "0 \<le> monotonic_q p a m" if "m \<le> ?n" for m
    using monotonic_q_nonneg [OF p a that] .
  have "0 \<le> (if ?n = 0 then 1 else 1 - p ! (?n - 1)) * monotonic_q p a ?n"
    using p nn [of ?n] by (auto simp: less_imp_diff_less intro!: mult_nonneg_nonneg)
  with monotonic_q_telescope [where n = ?n and p = p and a = a]
  have "(\<Sum>j<?n. p ! j * monotonic_q p a (Suc j)) \<le> (\<Sum>j<?n. a ! j)" by linarith
  also have "\<dots> = sum_list a" using assms(3) by (simp add: sum_list_nth_real)
  finally have "sum_list (map (\<lambda>j. p ! j * monotonic_q p a (Suc j)) [0 ..< ?n]) \<le> 1"
    using s by (simp only: sum_list_map_upt)
  moreover have "list_all (\<lambda>y. 0 \<le> y) (map (\<lambda>j. p ! j * monotonic_q p a (Suc j)) [0 ..< ?n])"
    using p nn by (auto simp: list_all_iff simp del: monotonic_q.simps intro!: mult_nonneg_nonneg)
  ultimately show ?thesis by (simp only: sub_distribution_def simp_thms)
qed

subsection \<open>The parallel mode on every query\<close>

lemma slice1_nth: "i < length xs \<Longrightarrow> slice1 i xs = [xs ! i]"
  by (simp add: slice1_def Cons_nth_drop_Suc [symmetric])

lemma weighted_cumsum:
  assumes "length a = length p" "length p \<le> length c" "length d = length p"
  shows "map2 (*) (map2 (*) p c) (cumsum (map2 (/) a d)) =
         map (\<lambda>j. p ! j * c ! j * (\<Sum>k\<le>j. a ! k / d ! k)) [0 ..< length p]"
proof (rule nth_equalityI)
  show "length (map2 (*) (map2 (*) p c) (cumsum (map2 (/) a d))) =
        length (map (\<lambda>j. p ! j * c ! j * (\<Sum>k\<le>j. a ! k / d ! k)) [0 ..< length p])"
    using assms by simp
next
  fix j assume "j < length (map2 (*) (map2 (*) p c) (cumsum (map2 (/) a d)))"
  then have j: "j < length p" using assms by simp
  have "cumsum (map2 (/) a d) ! j = (\<Sum>k\<le>j. map2 (/) a d ! k)"
    using j assms by (simp add: cumsum_nth)
  also have "\<dots> = (\<Sum>k\<le>j. a ! k / d ! k)"
    using j assms by (intro sum.cong refl) simp
  finally show "map2 (*) (map2 (*) p c) (cumsum (map2 (/) a d)) ! j =
      map (\<lambda>j. p ! j * c ! j * (\<Sum>k\<le>j. a ! k / d ! k)) [0 ..< length p] ! j"
    using j assms by simp
qed

lemma parallel_step_general:
  assumes "i < length P" "i < length CP" "length a = length (P ! i)"
    "length (P ! i) \<le> length (CP ! i)"
  shows "parallel_step nd eps cutoff P CP i [a] =
         [(case cutoff of None \<Rightarrow> (\<lambda>x. x) | Some s \<Rightarrow> zero_from s)
            (map (\<lambda>j. P ! i ! j * CP ! i ! j *
                    (\<Sum>k\<le>j. a ! k / (if nd then 1 else clamp (CP ! i ! k) eps 1)))
               [0 ..< length (P ! i)])]"
proof -
  let ?p = "P ! i" and ?c = "CP ! i"
  let ?d = "map (\<lambda>k. if nd then 1 else clamp (?c ! k) eps 1) [0 ..< length ?p]"
  have q: "(if nd then map (map (\<lambda>a. a / 1)) [a]
            else bc (map2 (/)) [a] (map (map (\<lambda>c. clamp c eps 1)) [?c])) = [map2 (/) a ?d]"
  proof (cases nd)
    case True
    have "map (\<lambda>a. a / 1) a = map2 (/) a ?d"
      using assms(3) True by (intro nth_equalityI) simp_all
    with True show ?thesis by simp
  next
    case False
    have "map2 (/) a (map (\<lambda>c. clamp c eps 1) ?c) = map2 (/) a ?d"
      using assms(3,4) False by (intro nth_equalityI) simp_all
    with False show ?thesis by (simp add: bc_def)
  qed
  have "map2 (*) (map2 (*) ?p ?c) (cumsum (map2 (/) a ?d)) =
        map (\<lambda>j. ?p ! j * ?c ! j * (\<Sum>k\<le>j. a ! k / ?d ! k)) [0 ..< length ?p]"
    using assms(3,4) by (intro weighted_cumsum) simp_all
  also have "\<dots> = map (\<lambda>j. ?p ! j * ?c ! j *
                    (\<Sum>k\<le>j. a ! k / (if nd then 1 else clamp (?c ! k) eps 1))) [0 ..< length ?p]"
    by (intro map_cong refl arg_cong2 [where f = "(*)"] sum.cong) simp_all
  finally have w: "map2 (*) (map2 (*) ?p ?c) (cumsum (map2 (/) a ?d)) =
        map (\<lambda>j. ?p ! j * ?c ! j *
                    (\<Sum>k\<le>j. a ! k / (if nd then 1 else clamp (?c ! k) eps 1))) [0 ..< length ?p]" .
  show ?thesis
    unfolding parallel_step_def Let_def slice1_nth [OF assms(1)] slice1_nth [OF assms(2)] q
    by (simp add: bc_def w split: option.split)
qed

lemma prod_telescope:
  "(\<Sum>j<n. p ! j * (\<Prod>m<j. 1 - p ! m)) + (\<Prod>m<n. 1 - p ! m) = (1::real)"
  by (induction n) (simp_all add: algebra_simps)

text \<open>
  When the clamp of the factors \<open>1 - p_choose\<close> is not active (every \<open>p_choose\<close> is at most
  \<open>1 - eps\<close>), \<open>safe_cumprod\<close> is the exact exclusive product.  The clamp of the
  denominator can only make the denominator larger, so every entry of the row is at most
  the entry of the recurrence.
\<close>

lemma factor_unclamped:
  assumes "0 < eps" "list_all (\<lambda>x. 0 \<le> x \<and> x \<le> 1 - eps) p"
  shows "j < length p \<Longrightarrow> safe_cumprod (map (\<lambda>y. 1 - y) p) eps ! j = (\<Prod>m<j. 1 - p ! m)"
    and "j \<le> length p \<Longrightarrow> 0 < (\<Prod>m<j. 1 - p ! m)"
    and "j \<le> length p \<Longrightarrow> (\<Prod>m<j. 1 - p ! m) \<le> 1"
proof -
  let ?x = "map (\<lambda>y. 1 - y) p"
  from assms(2) have r: "\<forall>y\<in>set p. 0 \<le> y \<and> y \<le> 1 - eps"
    by (simp add: list_all_iff)
  have m: "map (\<lambda>v. clamp v eps 1) ?x = ?x"
    using r by (intro map_idI) (auto simp: clamp_def)
  have eq: "safe_cumprod ?x eps = exclusive_cumprod ?x"
    unfolding safe_cumprod_eq [OF assms(1)] m ..
  show "safe_cumprod ?x eps ! j = (\<Prod>m<j. 1 - p ! m)" if "j < length p"
  proof -
    have "exclusive_cumprod ?x ! j = (\<Prod>m<j. ?x ! m)"
      using that by (simp add: exclusive_cumprod_nth)
    also have "\<dots> = (\<Prod>m<j. 1 - p ! m)"
      using that by (intro prod.cong refl) simp
    finally show ?thesis unfolding eq .
  qed
  have f: "0 < 1 - p ! m \<and> 1 - p ! m \<le> 1" if "m < length p" for m
    using r that assms(1) by (force simp: in_set_conv_nth)
  show "0 < (\<Prod>m<j. 1 - p ! m)" if "j \<le> length p"
    using that f by (intro prod_pos) auto
  show "(\<Prod>m<j. 1 - p ! m) \<le> 1" if "j \<le> length p"
    using that f by (intro prod_le_1) (auto intro: less_imp_le)
qed

lemma parallel_row_sub_distribution:
  assumes "0 < eps" "list_all (\<lambda>x. 0 \<le> x \<and> x \<le> 1 - eps) p" "sub_distribution a"
    "length a = length p"
  shows "sub_distribution
           (map (\<lambda>j. p ! j * safe_cumprod (map (\<lambda>y. 1 - y) p) eps ! j *
                   (\<Sum>k\<le>j. a ! k / (if nd then 1
                        else clamp (safe_cumprod (map (\<lambda>y. 1 - y) p) eps ! k) eps 1)))
              [0 ..< length p])"
proof -
  let ?n = "length p"
  let ?c = "safe_cumprod (map (\<lambda>y. 1 - y) p) eps"
  let ?C = "\<lambda>j. (\<Prod>m<j. 1 - p ! m)"
  let ?d = "\<lambda>k. if nd then 1 else clamp (?c ! k) eps 1"
  let ?row = "\<lambda>j. p ! j * ?c ! j * (\<Sum>k\<le>j. a ! k / ?d k)"
  let ?exact = "\<lambda>j. p ! j * monotonic_q p a (Suc j)"
  note f = factor_unclamped [OF assms(1,2)]
  from assms(2) have p: "\<forall>j<?n. 0 \<le> p ! j \<and> p ! j \<le> 1 - eps"
    by (simp add: list_all_length)
  from assms(3,4) have a: "\<forall>j<?n. 0 \<le> a ! j"
    by (simp add: sub_distribution_def list_all_length)
  have d: "?C k \<le> ?d k" if "k < ?n" for k
    using f(1) [OF that] f(3) [of k] that by (auto simp: clamp_def)
  have q: "monotonic_q p a (Suc j) = ?C j * (\<Sum>k\<le>j. a ! k / ?C k)" if "j < ?n" for j
  proof (rule monotonic_q_closed, intro allI impI)
    fix k assume "k \<le> j"
    with that have "k \<le> ?n" by simp
    from f(2) [OF this] show "?C k \<noteq> 0" by (rule less_imp_neq [THEN not_sym])
  qed
  have tm: "0 \<le> a ! k / ?d k \<and> a ! k / ?d k \<le> a ! k / ?C k" if "k < ?n" for k
  proof
    have pos: "0 < ?C k" using f(2) [of k] that by simp
    with d [OF that] have dp: "0 < ?d k" by linarith
    with a that show "0 \<le> a ! k / ?d k" by simp
    show "a ! k / ?d k \<le> a ! k / ?C k"
      using a that pos d [OF that] by (intro divide_left_mono mult_pos_pos dp) simp_all
  qed
  have bound: "0 \<le> ?row j \<and> ?row j \<le> ?exact j" if "j < ?n" for j
  proof
    have s0: "0 \<le> (\<Sum>k\<le>j. a ! k / ?d k)"
      using tm that by (intro sum_nonneg) simp
    have pc: "0 \<le> p ! j * ?C j"
      using p that f(2) [of j] by (intro mult_nonneg_nonneg) simp_all
    have cj: "?c ! j = ?C j" using f(1) [OF that] .
    show "0 \<le> ?row j" unfolding cj using pc s0 by (rule mult_nonneg_nonneg)
    have "(\<Sum>k\<le>j. a ! k / ?d k) \<le> (\<Sum>k\<le>j. a ! k / ?C k)"
      using tm that by (intro sum_mono) simp
    then have "p ! j * ?C j * (\<Sum>k\<le>j. a ! k / ?d k) \<le> p ! j * ?C j * (\<Sum>k\<le>j. a ! k / ?C k)"
      using pc by (rule mult_left_mono)
    then show "?row j \<le> ?exact j" unfolding cj q [OF that] by (simp add: mult.assoc)
  qed
  have "list_all (\<lambda>x. 0 \<le> x \<and> x \<le> 1) p" using p assms(1) by (auto simp: list_all_length)
  from recurrence_row_sub_distribution [OF this assms(3,4)]
  have "sum_list (map ?exact [0 ..< ?n]) \<le> 1" by (simp add: sub_distribution_def)
  then have e: "(\<Sum>j<?n. ?exact j) \<le> 1" by (simp only: sum_list_map_upt)
  have "(\<Sum>j<?n. ?row j) \<le> (\<Sum>j<?n. ?exact j)"
    using bound by (intro sum_mono) simp
  with e have "(\<Sum>j<?n. ?row j) \<le> 1" by linarith
  then have "sum_list (map ?row [0 ..< ?n]) \<le> 1" by (simp only: sum_list_map_upt)
  moreover have "list_all (\<lambda>y. 0 \<le> y) (map ?row [0 ..< ?n])"
    using bound by (simp add: list_all_iff)
  ultimately show ?thesis by (simp only: sub_distribution_def simp_thms)
qed

lemma zero_from_sub_distribution:
  assumes "sub_distribution x"
  shows "sub_distribution (zero_from s x)" "length (zero_from s x) = length x"
proof -
  let ?k = "nat (if s < 0 then max 0 (int (length x) + s) else min s (int (length x)))"
  have k: "?k \<le> length x" by auto
  have z: "zero_from s x = take ?k x @ replicate (length x - ?k) 0"
    by (simp add: zero_from_def Let_def)
  from assms have nn: "\<forall>y\<in>set x. 0 \<le> y" and su: "sum_list x \<le> 1"
    by (simp_all add: sub_distribution_def list_all_iff)
  have "sum_list x = sum_list (take ?k x) + sum_list (drop ?k x)"
    by (metis append_take_drop_id sum_list_append)
  moreover have "0 \<le> sum_list (drop ?k x)"
    using nn by (intro sum_list_nonneg) (auto dest: in_set_dropD)
  ultimately have "sum_list (take ?k x) \<le> 1" using su by linarith
  moreover have "\<forall>y\<in>set (take ?k x). 0 \<le> y" using nn by (auto dest: in_set_takeD)
  ultimately show "sub_distribution (zero_from s x)"
    unfolding z by (auto simp: sub_distribution_def list_all_iff)
  show "length (zero_from s x) = length x" unfolding z using k by simp
qed

lemma length_parallel_rows [simp]:
  "length (parallel_rows nd eps cutoff P CP js aw) = length js"
  by (induction js arbitrary: aw) (simp_all add: Let_def)

lemma parallel_rows_sub_distribution:
  assumes "0 < eps" "\<forall>i\<in>set js. i < length P"
    "\<forall>i<length P. length (P ! i) = klen \<and> list_all (\<lambda>x. 0 \<le> x \<and> x \<le> 1 - eps) (P ! i)"
    "sub_distribution a" "length a = klen"
  shows "list_all (\<lambda>m. \<exists>r. m = [r] \<and> sub_distribution r)
           (parallel_rows nd eps cutoff P (map (\<lambda>x. safe_cumprod (map (\<lambda>y. 1 - y) x) eps) P) js [a])"
  using assms(2,4,5)
proof (induction js arbitrary: a)
  case Nil
  then show ?case by simp
next
  case (Cons i js)
  let ?CP = "map (\<lambda>x. safe_cumprod (map (\<lambda>y. 1 - y) x) eps) P"
  from Cons.prems have i: "i < length P" by simp
  with assms(3) have pi: "length (P ! i) = klen" "list_all (\<lambda>x. 0 \<le> x \<and> x \<le> 1 - eps) (P ! i)"
    by simp_all
  have cp: "?CP ! i = safe_cumprod (map (\<lambda>y. 1 - y) (P ! i)) eps" using i by simp
  have len: "length (P ! i) \<le> length (?CP ! i)"
    unfolding cp by (simp add: safe_cumprod_def exclusive_cumsum_def)
  let ?row = "map (\<lambda>j. P ! i ! j * ?CP ! i ! j *
                    (\<Sum>k\<le>j. a ! k / (if nd then 1 else clamp (?CP ! i ! k) eps 1)))
               [0 ..< length (P ! i)]"
  let ?r = "(case cutoff of None \<Rightarrow> (\<lambda>x. x) | Some s \<Rightarrow> zero_from s) ?row"
  have step: "parallel_step nd eps cutoff P ?CP i [a] = [?r]"
    using i pi(1) Cons.prems(3) len by (intro parallel_step_general) simp_all
  have "sub_distribution ?row"
    unfolding cp
    using pi Cons.prems(2,3) by (intro parallel_row_sub_distribution [OF assms(1)]) simp_all
  then have r: "sub_distribution ?r" "length ?r = klen"
    using pi(1) by (auto simp: zero_from_sub_distribution split: option.split)
  from Cons.IH [OF _ r] Cons.prems(1)
  have "list_all (\<lambda>m. \<exists>r. m = [r] \<and> sub_distribution r)
          (parallel_rows nd eps cutoff P ?CP js [?r])" by simp
  with r(1) show ?case by (simp add: step Let_def del: parallel_step_def)
qed

lemma cat_rows_singletons:
  assumes "rows \<noteq> []" "length rows = qlen" "list_all (\<lambda>m. \<exists>r. m = [r] \<and> Q r) rows"
  shows "list_all Q (cat_rows qlen rows)"
proof (cases "qlen > 1")
  case True
  with assms(3) show ?thesis by (auto simp: cat_rows_def list_all_iff)
next
  case False
  have "last rows \<in> set rows" using assms(1) by simp
  with assms(3) obtain r where "last rows = [r]" "Q r" by (auto simp: list_all_iff)
  with False show ?thesis by (simp add: cat_rows_def)
qed

lemma list_all3_nth:
  "list_all (list_all (list_all Q)) x \<Longrightarrow> b < length x \<Longrightarrow> h < length (x ! b) \<Longrightarrow>
   i < length (x ! b ! h) \<Longrightarrow> Q (x ! b ! h ! i)"
  by (simp add: list_all_length)

lemma mode_parallel_sub_distribution:
  assumes "0 < eps" "0 < qlen" "has_shape4 bs H qlen klen p_choose" "has_shape4 bs H 1 klen aw_prev"
    "list_all (list_all (list_all (list_all (\<lambda>x. 0 \<le> x \<and> x \<le> 1 - eps)))) p_choose"
    "list_all (list_all (list_all sub_distribution)) aw_prev"
  shows "list_all (list_all (list_all sub_distribution))
           (mode_parallel nd eps decot lookahead trigger_point qlen p_choose aw_prev)"
  unfolding list_all_length
proof (intro allI impI)
  note p = has_shape4_nth [OF assms(3)] and a = has_shape4_nth [OF assms(4)]
  let ?M = "mode_parallel nd eps decot lookahead trigger_point qlen p_choose aw_prev"
  fix b h i
  assume "b < length ?M"
  then have b: "b < bs" using p(1) by (simp add: mode_parallel_def)
  define cutoff where "cutoff = (case trigger_point of None \<Rightarrow> None
                   | Some tp \<Rightarrow> if decot then Some (tp ! b + lookahead + 1) else None)"
  have Mb: "?M ! b = map2 (\<lambda>p aw. cat_rows qlen (parallel_rows nd eps cutoff p
                  (map (\<lambda>x. safe_cumprod (map (\<lambda>y. 1 - y) x) eps) p) [0 ..< qlen] aw))
             (p_choose ! b) (aw_prev ! b)"
    using b p(1) by (simp add: mode_parallel_def cutoff_def Let_def split: option.split)
  assume "h < length (?M ! b)"
  then have h: "h < H" using p(2) [OF b] by (simp add: Mb)
  let ?P = "p_choose ! b ! h"
  from one_row [OF a(3) [OF b h]] obtain aw where aw: "aw_prev ! b ! h = [aw]" by blast
  have awp: "sub_distribution aw" "length aw = klen"
    using list_all3_nth [OF assms(6), of b h 0] a(1) a(2) [OF b] a(3) [OF b h]
      a(4) [OF b h, of 0] b h aw
    by simp_all
  have P: "\<forall>i<length ?P. length (?P ! i) = klen \<and>
             list_all (\<lambda>x. 0 \<le> x \<and> x \<le> 1 - eps) (?P ! i)"
    using list_all3_nth [OF assms(5), of b h] p(1) p(2) [OF b] p(3) [OF b h] p(4) [OF b h] b h
    by simp
  have js: "\<forall>i\<in>set [0 ..< qlen]. i < length ?P" using p(3) [OF b h] by simp
  let ?rows = "parallel_rows nd eps cutoff ?P
                  (map (\<lambda>x. safe_cumprod (map (\<lambda>y. 1 - y) x) eps) ?P) [0 ..< qlen] [aw]"
  from parallel_rows_sub_distribution [OF assms(1) js P awp]
  have "list_all (\<lambda>m. \<exists>r. m = [r] \<and> sub_distribution r) ?rows" .
  moreover have "?rows \<noteq> []" "length ?rows = qlen" using assms(2) by (auto simp: length_0_conv [symmetric] simp del: length_0_conv)
  ultimately have ca: "list_all sub_distribution (cat_rows qlen ?rows)"
    by (intro cat_rows_singletons) simp_all
  have "?M ! b ! h = cat_rows qlen ?rows"
    using h p(2) [OF b] a(2) [OF b] aw by (simp add: Mb)
  moreover assume "i < length (?M ! b ! h)"
  ultimately show "sub_distribution (?M ! b ! h ! i)"
    using ca by (simp add: list_all_length)
qed


subsection \<open>The recursive mode\<close>

lemma mode_recursive_sub_distribution:
  assumes "0 < qlen" "has_shape4 bs H qlen klen p_choose" "has_shape4 bs H 1 klen aw_prev"
    "list_all (list_all (list_all (list_all (\<lambda>x. 0 \<le> x \<and> x \<le> 1)))) p_choose"
    "list_all (list_all (list_all sub_distribution)) aw_prev"
  shows "list_all (list_all (list_all sub_distribution))
           (mode_recursive qlen klen p_choose aw_prev)"
  unfolding list_all_length
proof (intro allI impI)
  note p = has_shape4_nth [OF assms(2)] and a = has_shape4_nth [OF assms(3)]
  let ?M = "mode_recursive qlen klen p_choose aw_prev"
  fix b h i
  assume "b < length ?M"
  then have b: "b < bs" using p(1) by (simp add: mode_recursive_def)
  have Mb: "?M ! b = map2 (\<lambda>p aw. cat_rows qlen (recursive_rows klen p [0 ..< qlen] aw))
             (p_choose ! b) (aw_prev ! b)"
    using b p(1) a(1) by (simp add: mode_recursive_def)
  assume "h < length (?M ! b)"
  then have h: "h < H" using p(2) [OF b] by (simp add: Mb)
  let ?P = "p_choose ! b ! h"
  from one_row [OF a(3) [OF b h]] obtain aw where aw: "aw_prev ! b ! h = [aw]" by blast
  have awp: "sub_distribution aw" "length aw = klen"
    using list_all3_nth [OF assms(5), of b h 0] a(1) a(2) [OF b] a(3) [OF b h]
      a(4) [OF b h, of 0] b h aw
    by simp_all
  have P0: "length (?P ! 0) = klen" "list_all (\<lambda>x. 0 \<le> x \<and> x \<le> 1) (?P ! 0)"
    using list_all3_nth [OF assms(4), of b h 0] p(1) p(2) [OF b] p(3) [OF b h]
      p(4) [OF b h, of 0] b h assms(1)
    by simp_all
  have "?P \<noteq> []" using p(3) [OF b h] assms(1) by auto
  then have "slice1 0 ?P = [?P ! 0]" by (cases ?P) (simp_all add: slice1_def)
  then have "recursive_step klen ?P 0 [aw] = recursive_step klen [?P ! 0] 0 [aw]"
    by (simp add: recursive_step_def slice1_def)
  also have "\<dots> = [map (\<lambda>j. ?P ! 0 ! j * monotonic_q (?P ! 0) aw (Suc j)) [0 ..< length (?P ! 0)]]"
    using recursive_step_row [of aw "?P ! 0"] awp(2) P0(1) by simp
  finally have st: "recursive_step klen ?P 0 [aw] =
      [map (\<lambda>j. ?P ! 0 ! j * monotonic_q (?P ! 0) aw (Suc j)) [0 ..< length (?P ! 0)]]" .
  have "?M ! b ! h = cat_rows qlen (recursive_rows klen ?P [0 ..< qlen] [aw])"
    using h p(2) [OF b] a(2) [OF b] aw by (simp add: Mb)
  then have Mh: "?M ! b ! h =
      [map (\<lambda>j. ?P ! 0 ! j * monotonic_q (?P ! 0) aw (Suc j)) [0 ..< length (?P ! 0)]]"
    by (simp only: recursive_rows_all [OF assms(1)] st)
  have "sub_distribution (map (\<lambda>j. ?P ! 0 ! j * monotonic_q (?P ! 0) aw (Suc j)) [0 ..< length (?P ! 0)])"
    using P0 awp by (intro recurrence_row_sub_distribution) simp_all
  moreover assume "i < length (?M ! b ! h)"
  ultimately show "sub_distribution (?M ! b ! h ! i)"
    by (simp add: Mh)
qed

subsection \<open>The hard mode\<close>

lemma hard_row_sub_distribution:
  assumes "sub_distribution aw" "length aw = length e"
  shows "sub_distribution (hard_row e aw)"
proof -
  let ?n = "length e"
  let ?ch = "map (\<lambda>x. if sigmoid x \<ge> 1 / 2 then 1 else 0 :: real) e"
  let ?p = "map2 (*) ?ch (cumsum aw)"
  from assms have a: "\<forall>j<?n. 0 \<le> aw ! j" and s: "sum_list aw \<le> 1"
    by (simp_all add: sub_distribution_def list_all_length)
  have len: "length ?p = ?n" using assms(2) by simp
  have cs: "0 \<le> cumsum aw ! j \<and> cumsum aw ! j \<le> 1" if "j < ?n" for j
  proof -
    have c: "cumsum aw ! j = (\<Sum>k\<le>j. aw ! k)" using that assms(2) by (simp add: cumsum_nth)
    have "(\<Sum>k\<le>j. aw ! k) \<le> (\<Sum>k<?n. aw ! k)"
      using a that by (intro sum_mono2) auto
    also have "\<dots> = sum_list aw" using assms(2) by (simp add: sum_list_nth_real)
    finally have "(\<Sum>k\<le>j. aw ! k) \<le> 1" using s by simp
    moreover have "0 \<le> (\<Sum>k\<le>j. aw ! k)" using a that by (intro sum_nonneg) simp
    ultimately show ?thesis unfolding c by simp
  qed
  have p: "0 \<le> ?p ! j \<and> ?p ! j \<le> 1" if "j < ?n" for j
    using cs [OF that] that assms(2) by simp
  have row: "hard_row e aw = map (\<lambda>j. ?p ! j * (\<Prod>m<j. 1 - ?p ! m)) [0 ..< ?n]"
  proof (rule nth_equalityI)
    show "length (hard_row e aw) = length (map (\<lambda>j. ?p ! j * (\<Prod>m<j. 1 - ?p ! m)) [0 ..< ?n])"
      using assms(2) by simp
    fix j assume "j < length (hard_row e aw)"
    then have j: "j < ?n" using assms(2) by simp
    then have jp: "j < length (map (\<lambda>x. 1 - x) ?p)" using len by simp
    have "exclusive_cumprod (map (\<lambda>x. 1 - x) ?p) ! j = (\<Prod>m<j. map (\<lambda>x. 1 - x) ?p ! m)"
      using jp by (rule exclusive_cumprod_nth)
    also have "\<dots> = (\<Prod>m<j. 1 - ?p ! m)"
      using j len by (intro prod.cong refl) simp
    finally have "exclusive_cumprod (map (\<lambda>x. 1 - x) ?p) ! j = (\<Prod>m<j. 1 - ?p ! m)" .
    moreover have "hard_row e aw ! j = ?p ! j * exclusive_cumprod (map (\<lambda>x. 1 - x) ?p) ! j"
      using j len by (simp add: hard_row_def Let_def)
    ultimately show "hard_row e aw ! j =
        map (\<lambda>j. ?p ! j * (\<Prod>m<j. 1 - ?p ! m)) [0 ..< ?n] ! j"
      using j by simp
  qed
  have c0: "0 \<le> (\<Prod>m<j. 1 - ?p ! m)" if "j \<le> ?n" for j
  proof (rule prod_nonneg)
    fix m assume "m \<in> {..<j}"
    with that have "m < ?n" by simp
    from p [OF this] show "0 \<le> 1 - ?p ! m" by simp
  qed
  have "list_all (\<lambda>y. 0 \<le> y) (map (\<lambda>j. ?p ! j * (\<Prod>m<j. 1 - ?p ! m)) [0 ..< ?n])"
    unfolding list_all_iff
  proof
    fix y assume "y \<in> set (map (\<lambda>j. ?p ! j * (\<Prod>m<j. 1 - ?p ! m)) [0 ..< ?n])"
    then obtain j where j: "j < ?n" and y: "y = ?p ! j * (\<Prod>m<j. 1 - ?p ! m)" by auto
    from p [OF j] c0 [of j] j show "0 \<le> y" unfolding y by (intro mult_nonneg_nonneg) simp_all
  qed
  moreover have "(\<Sum>j<?n. ?p ! j * (\<Prod>m<j. 1 - ?p ! m)) \<le> 1"
    using prod_telescope [where n = ?n and p = ?p] c0 [of ?n] by simp
  then have "sum_list (map (\<lambda>j. ?p ! j * (\<Prod>m<j. 1 - ?p ! m)) [0 ..< ?n]) \<le> 1"
    by (simp only: sum_list_map_upt)
  ultimately show ?thesis unfolding row by (simp only: sub_distribution_def simp_thms)
qed

lemma one_hot_or_zero_sub_distribution: "one_hot_or_zero x \<Longrightarrow> sub_distribution x"
  by (auto simp: one_hot_or_zero_def sub_distribution_def list_all_iff)

lemma zero_sum_nonneg:
  assumes "list_all (\<lambda>y. 0 \<le> y) x" "sum_list x = 0"
  shows "x = replicate (length x) (0::real)"
proof -
  have "\<forall>y\<in>set x. y = 0"
    using assms by (simp add: list_all_iff sum_list_nonneg_eq_0_iff)
  then show ?thesis by (intro nth_equalityI) simp_all
qed

lemma latency_head_sub_distribution:
  assumes "0 < eps_wait" "rm < length x" "sub_distribution x"
  shows "\<exists>y. latency_head fml eps_wait bt lm rm x = Inr y \<and> length y = length x \<and>
             sub_distribution y"
proof (cases "sum_list x = 0")
  case True
  let ?i = "min (int rm) (int lm + eps_wait)"
  have i: "0 \<le> ?i" "?i < int (length x)" using assms(1,2) by simp_all
  from True have "latency_head fml eps_wait bt lm rm x = set_item x ?i 1"
    by (simp add: latency_head_def latency_target_simp)
  with i have y: "latency_head fml eps_wait bt lm rm x = Inr (x[nat ?i := 1])"
    by (simp add: set_item_in_range)
  from assms(3) True have "x = replicate (length x) 0"
    by (intro zero_sum_nonneg) (simp_all add: sub_distribution_def)
  then have "x[nat ?i := 1] = one_hot (length x) (nat ?i)" unfolding one_hot_def by metis
  moreover have "nat ?i < length x" using i by simp
  ultimately have "sub_distribution (x[nat ?i := 1])"
    by (simp add: one_hot_or_zero_one_hot one_hot_or_zero_sub_distribution)
  with y show ?thesis by simp
next
  case False
  then have ne: "nonzero x \<noteq> []" by (rule sum_list_nonzero)
  let ?f = "Min (set (nonzero x))"
  have m: "index_min (nonzero x) = Inr ?f" using ne by (simp add: index_min_Inr_iff)
  note f = Min_nonzero_less [OF ne]
  show ?thesis
  proof (cases "int ?f \<ge> int lm + eps_wait")
    case True
    let ?i = "int lm + eps_wait"
    have i: "0 \<le> ?i" "?i < int (length (map (\<lambda>_. 0::real) x))" using assms(1) True f(1) by simp_all
    from False True m have "latency_head fml eps_wait bt lm rm x = set_item (map (\<lambda>_. 0) x) ?i 1"
      by (simp add: latency_head_def latency_target_simp)
    with i have y: "latency_head fml eps_wait bt lm rm x = Inr ((map (\<lambda>_. 0) x)[nat ?i := 1])"
      by (simp only: set_item_in_range)
    have "map (\<lambda>_. 0::real) x = replicate (length x) 0" by (simp add: map_replicate_const)
    then have "(map (\<lambda>_. 0) x)[nat ?i := 1] = one_hot (length x) (nat ?i)"
      unfolding one_hot_def by simp
    moreover have "nat ?i < length x" using i by simp
    ultimately have "sub_distribution ((map (\<lambda>_. 0) x)[nat ?i := 1])"
      by (simp add: one_hot_or_zero_one_hot one_hot_or_zero_sub_distribution)
    with y show ?thesis by simp
  next
    case c: False
    from False c m have "latency_head fml eps_wait bt lm rm x = Inr x"
      by (simp add: latency_head_def latency_target_simp)
    with assms(3) show ?thesis by simp
  qed
qed

lemma latency_batch_sub_distribution:
  assumes "0 < eps_wait" "length xs = H" "list_all (\<lambda>x. length x = klen) xs"
    "list_all sub_distribution xs"
  shows "\<exists>ys. latency_batch H eps_wait br xs = Inr ys \<and> length ys = H \<and>
           list_all sub_distribution ys"
proof (cases "sum_list (map sum_list xs) = 0")
  case True
  with assms show ?thesis by (simp add: latency_batch_simp [OF assms(1-3)])
next
  case False
  let ?S = "concat (map nonzero xs)"
  let ?f = "latency_head (br = None) eps_wait (int (size1 xs) - 1) (Min (set ?S)) (Max (set ?S))"
  have ne: "?S \<noteq> []" using False by (rule total_nonzero)
  then have "Max (set ?S) \<in> set ?S" by (intro Max_in) simp_all
  then have rm: "Max (set ?S) < klen" using assms(3) by (rule all_nonzero_bound [rotated])
  have "sub_distribution (projr (?f x))" if "x \<in> set xs" for x
  proof -
    from that assms(3,4) have l: "length x = klen" and sd: "sub_distribution x"
      by (simp_all add: list_all_iff)
    from rm l have "Max (set ?S) < length x" by simp
    from latency_head_sub_distribution [OF assms(1) this sd, of "br = None" "int (size1 xs) - 1"
        "Min (set ?S)"]
    show ?thesis by auto
  qed
  then have "list_all sub_distribution (map (\<lambda>x. projr (?f x)) xs)"
    by (simp add: list_all_iff)
  with False assms(2) show ?thesis by (simp add: latency_batch_simp [OF assms(1-3)])
qed

text \<open>
  A property of rows that \<open>hard_row\<close> and the latency control preserve holds for every
  row of \<open>alpha\<close> in hard mode.
\<close>

lemma mode_hard_preserves:
  assumes "has_shape4 bs H 1 klen e_mono" "has_shape4 bs H 1 klen aw_prev"
    "list_all (list_all (list_all Q)) aw_prev"
    "\<And>e aw. Q aw \<Longrightarrow> length aw = length e \<Longrightarrow> Q (hard_row e aw)"
    "\<And>xs. 0 < eps_wait \<Longrightarrow> length xs = H \<Longrightarrow> list_all (\<lambda>x. length x = klen) xs \<Longrightarrow>
       list_all Q xs \<Longrightarrow>
       \<exists>ys. latency_batch H eps_wait br xs = Inr ys \<and> length ys = H \<and> list_all Q ys"
  shows "\<exists>alpha. mode_hard H eps_wait br 1 e_mono aw_prev = Inr alpha \<and>
           list_all (list_all (list_all Q)) alpha"
proof -
  note sh = hard_alpha_shape [OF assms(1,2)]
  let ?A = "hard_alpha e_mono aw_prev"
  have A: "list_all Q (?A ! b)" if b: "b < bs" for b
    unfolding list_all_length
  proof (intro allI impI)
    fix i assume "i < length (?A ! b)"
    with sh(2) [OF b] have i: "i < H" by simp
    have "Q (aw_prev ! b ! i ! 0)"
      using list_all3_nth [OF assms(3), of b i 0] has_shape4_nth [OF assms(2)] b i by simp
    moreover have "length (aw_prev ! b ! i ! 0) = length (e_mono ! b ! i ! 0)"
      using has_shape4_nth(4) [OF assms(2), of b i 0] has_shape4_nth(4) [OF assms(1), of b i 0] b i
      by simp
    ultimately show "Q (?A ! b ! i)"
      unfolding sh(3) [OF b i] by (rule assms(4))
  qed
  show ?thesis
  proof (cases "0 < eps_wait")
    case True
    let ?R = "map (\<lambda>xs. map (\<lambda>x. [x]) (projr (latency_batch H eps_wait br xs))) ?A"
    have "list_all (list_all (list_all Q)) ?R"
      unfolding list_all_length
    proof (intro allI impI)
      fix b h i
      assume "b < length ?R"
      then have b: "b < bs" using sh(1) by simp
      have len: "length (?A ! b) = H" "list_all (\<lambda>x. length x = klen) (?A ! b)"
        using b sh(2,4) by (simp_all add: list_all_length)
      from assms(5) [OF True len A [OF b]]
      obtain ys where ys: "latency_batch H eps_wait br (?A ! b) = Inr ys" "length ys = H"
        "list_all Q ys"
        by blast
      have R: "?R ! b = map (\<lambda>x. [x]) ys" using b sh(1) ys(1) by simp
      assume "h < length (?R ! b)"
      then have h: "h < H" using R ys(2) by simp
      assume "i < length (?R ! b ! h)"
      then have "?R ! b ! h ! i = ys ! h" using R h ys(2) by simp
      with ys(2,3) h show "Q (?R ! b ! h ! i)" by (simp add: list_all_length)
    qed
    then show ?thesis using mode_hard_latency [OF True assms(1,2)] by simp
  next
    case False
    have "list_all (list_all (list_all Q)) (map (map (\<lambda>x. [x])) ?A)"
      unfolding list_all_length
    proof (intro allI impI)
      fix b h i
      assume "b < length (map (map (\<lambda>x. [x])) ?A)"
      then have b: "b < bs" using sh(1) by simp
      assume "h < length (map (map (\<lambda>x. [x])) ?A ! b)"
      then have h: "h < H" using b sh(1,2) by simp
      assume "i < length (map (map (\<lambda>x. [x])) ?A ! b ! h)"
      then have "map (map (\<lambda>x. [x])) ?A ! b ! h ! i = ?A ! b ! h" using b h sh(1,2) by simp
      moreover have "Q (?A ! b ! h)"
        using A [OF b] h sh(2) [OF b] by (simp add: list_all_length)
      ultimately show "Q (map (map (\<lambda>x. [x])) ?A ! b ! h ! i)" by simp
    qed
    moreover have "mode_hard H eps_wait br 1 e_mono aw_prev = Inr (map (map (\<lambda>x. [x])) ?A)"
      using False by (intro mode_hard_no_latency) simp
    ultimately show ?thesis by (simp only: sum.inject simp_thms ex_simps)
  qed
qed

lemma mode_hard_one_hot:
  assumes "has_shape4 bs H 1 klen e_mono" "has_shape4 bs H 1 klen aw_prev"
    "list_all (list_all (list_all one_hot_or_zero)) aw_prev"
  shows "\<exists>alpha. mode_hard H eps_wait br 1 e_mono aw_prev = Inr alpha \<and>
           list_all (list_all (list_all one_hot_or_zero)) alpha"
proof (rule mode_hard_preserves [OF assms])
  fix e aw :: row assume "one_hot_or_zero aw" "length aw = length e"
  then show "one_hot_or_zero (hard_row e aw)" by (rule hard_row_one_hot_or_zero)
next
  fix xs :: "row list"
  assume "0 < eps_wait" "length xs = H" "list_all (\<lambda>x. length x = klen) xs"
    "list_all one_hot_or_zero xs"
  from latency_batch_one_hot [OF this, of br]
  show "\<exists>ys. latency_batch H eps_wait br xs = Inr ys \<and> length ys = H \<and>
           list_all one_hot_or_zero ys" by blast
qed

lemma mode_hard_sub_distribution:
  assumes "has_shape4 bs H 1 klen e_mono" "has_shape4 bs H 1 klen aw_prev"
    "list_all (list_all (list_all sub_distribution)) aw_prev"
  shows "\<exists>alpha. mode_hard H eps_wait br 1 e_mono aw_prev = Inr alpha \<and>
           list_all (list_all (list_all sub_distribution)) alpha"
proof (rule mode_hard_preserves [OF assms])
  fix e aw :: row assume "sub_distribution aw" "length aw = length e"
  then show "sub_distribution (hard_row e aw)" by (rule hard_row_sub_distribution)
next
  fix xs :: "row list"
  assume "0 < eps_wait" "length xs = H" "list_all (\<lambda>x. length x = klen) xs"
    "list_all sub_distribution xs"
  then show "\<exists>ys. latency_batch H eps_wait br xs = Inr ys \<and> length ys = H \<and>
           list_all sub_distribution ys" by (rule latency_batch_sub_distribution)
qed

subsection \<open>The rows of \<open>alpha\<close> in every mode\<close>

lemma sigmoid_bounds: "0 \<le> sigmoid x \<and> sigmoid x \<le> 1"
  by (simp add: sigmoid_def add_nonneg_pos less_imp_le)

lemma torch_sigmoid_bounds: "0 \<le> torch_sigmoid x \<and> torch_sigmoid x \<le> 1"
  using sigmoid_bounds [of x] by (simp add: torch_sigmoid_def)

lemma p_choose_shape:
  assumes "has_shape4 bs H qlen klen e" "has_shape4 bs H qlen klen n"
  shows "has_shape4 bs H qlen klen (map2 (map2 (map2 (map2 (\<lambda>x n. torch_sigmoid (x + n))))) e n)"
proof (rule has_shape4_I)
  note e = has_shape4_nth [OF assms(1)] and n = has_shape4_nth [OF assms(2)]
  let ?p = "map2 (map2 (map2 (map2 (\<lambda>x n. torch_sigmoid (x + n))))) e n"
  show "length ?p = bs" using e(1) n(1) by simp
  fix b assume b: "b < bs"
  then show l2: "length (?p ! b) = H" using e(1,2) n(1,2) by simp
  fix i assume i: "i < H"
  then show l3: "length (?p ! b ! i) = qlen" using b e(1,2,3) n(1,2,3) by simp
  fix j assume "j < qlen"
  then show "length (?p ! b ! i ! j) = klen" using b i e n by simp
qed

lemma p_choose_bounds:
  "list_all (list_all (list_all (list_all (\<lambda>x. 0 \<le> x \<and> x \<le> 1))))
     (map2 (map2 (map2 (map2 (\<lambda>x n. torch_sigmoid (x + n))))) e n)"
  by (auto simp: list_all_iff torch_sigmoid_bounds elim!: in_set_zipE)

lemma list_all4_conj:
  "list_all (list_all (list_all (list_all P))) x \<Longrightarrow> list_all (list_all (list_all (list_all Q))) x \<Longrightarrow>
   list_all (list_all (list_all (list_all (\<lambda>y. P y \<and> Q y)))) x"
  by (simp add: list_all_iff)

text \<open>
  Claim C5, as amended.  On tensors of the documented shapes, for the \<open>alpha\<close> that
  \<open>forward\<close> selects and returns, when every row of \<open>aw_prev\<close> is nonnegative and sums
  to at most one: in \<open>hard\<close> mode every row of \<open>alpha\<close> is nonnegative and sums to at
  most one (also after the latency control), and it is a one-hot vector or all zero
  when every row of \<open>aw_prev\<close> is; in \<open>recursive\<close> mode every row of \<open>alpha\<close> is
  nonnegative and sums to at most one; in \<open>parallel\<close> mode the same holds provided
  \<open>eps > 0\<close> and the clamp of the factors is not active, that is every \<open>p_choose\<close> is
  at most \<open>1 - eps\<close>.
\<close>

theorem alpha_rows_sub_distribution:
  assumes "has_shape4 bs (mo_n_heads_mono m) qlen klen e_mono"
    "has_shape4 bs (mo_n_heads_mono m) 1 klen aw_prev"
    "0 < qlen"
    "select_alpha m mode qlen klen e_mono aw_prev trigger_point eps_wait boundary_rightmost rnd =
       Inr (alpha, alpha_masked)"
    "list_all (list_all (list_all sub_distribution)) aw_prev"
  shows "(mode = ''hard'' \<longrightarrow>
            list_all (list_all (list_all sub_distribution)) alpha \<and>
            (list_all (list_all (list_all one_hot_or_zero)) aw_prev \<longrightarrow>
               list_all (list_all (list_all one_hot_or_zero)) alpha)) \<and>
         (mode = ''recursive'' \<and> has_shape4 bs (mo_n_heads_mono m) qlen klen (dr_noise rnd) \<longrightarrow>
            list_all (list_all (list_all sub_distribution)) alpha) \<and>
         (mode = ''parallel'' \<and> has_shape4 bs (mo_n_heads_mono m) qlen klen (dr_noise rnd) \<and>
            0 < mo_eps m \<and>
            list_all (list_all (list_all (list_all (\<lambda>p. p \<le> 1 - mo_eps m))))
              (map2 (map2 (map2 (map2 (\<lambda>x n. torch_sigmoid (x + n))))) e_mono (dr_noise rnd)) \<longrightarrow>
            list_all (list_all (list_all sub_distribution)) alpha)"
proof (intro conjI impI)
  assume mode: "mode = ''hard''"
  from assms(4) mode
  have mh: "mode_hard (mo_n_heads_mono m) eps_wait boundary_rightmost qlen e_mono aw_prev =
        Inr alpha"
    by (simp add: select_alpha_def split: sum.splits)
  then have q: "qlen = 1" by (simp add: mode_hard_def split: if_splits)
  from mode_hard_sub_distribution [OF assms(1,2) [unfolded q] assms(5), of eps_wait
      boundary_rightmost] mh
  show "list_all (list_all (list_all sub_distribution)) alpha" unfolding q by simp
  assume oh: "list_all (list_all (list_all one_hot_or_zero)) aw_prev"
  from mode_hard_one_hot [OF assms(1,2) [unfolded q] oh, of eps_wait boundary_rightmost] mh
  show "list_all (list_all (list_all one_hot_or_zero)) alpha" unfolding q by simp
next
  let ?p = "map2 (map2 (map2 (map2 (\<lambda>x n. torch_sigmoid (x + n))))) e_mono (dr_noise rnd)"
  assume "mode = ''recursive'' \<and> has_shape4 bs (mo_n_heads_mono m) qlen klen (dr_noise rnd)"
  then have mode: "mode = ''recursive''"
    and n: "has_shape4 bs (mo_n_heads_mono m) qlen klen (dr_noise rnd)" by simp_all
  from assms(3,4) mode have "alpha = mode_recursive qlen klen ?p aw_prev"
    by (simp add: select_alpha_def Let_def)
  with mode_recursive_sub_distribution [OF assms(3) p_choose_shape [OF assms(1) n] assms(2)
      p_choose_bounds assms(5)]
  show "list_all (list_all (list_all sub_distribution)) alpha" by simp
next
  let ?p = "map2 (map2 (map2 (map2 (\<lambda>x n. torch_sigmoid (x + n))))) e_mono (dr_noise rnd)"
  assume "mode = ''parallel'' \<and> has_shape4 bs (mo_n_heads_mono m) qlen klen (dr_noise rnd) \<and>
            0 < mo_eps m \<and>
            list_all (list_all (list_all (list_all (\<lambda>p. p \<le> 1 - mo_eps m)))) ?p"
  then have mode: "mode = ''parallel''"
    and n: "has_shape4 bs (mo_n_heads_mono m) qlen klen (dr_noise rnd)"
    and eps: "0 < mo_eps m"
    and le: "list_all (list_all (list_all (list_all (\<lambda>p. p \<le> 1 - mo_eps m)))) ?p" by simp_all
  have "list_all (list_all (list_all (list_all (\<lambda>x. (0 \<le> x \<and> x \<le> 1) \<and> x \<le> 1 - mo_eps m)))) ?p"
    using p_choose_bounds le by (rule list_all4_conj)
  then have nc: "list_all (list_all (list_all (list_all (\<lambda>x. 0 \<le> x \<and> x \<le> 1 - mo_eps m)))) ?p"
    by (simp add: list_all_iff)
  from assms(3,4) mode
  have "alpha = mode_parallel (mo_no_denom m) (mo_eps m) (mo_decot m) (mo_lookahead m)
                  trigger_point qlen ?p aw_prev"
    by (simp add: select_alpha_def Let_def)
  with mode_parallel_sub_distribution [OF eps assms(3) p_choose_shape [OF assms(1) n] assms(2)
      nc assms(5)]
  show "list_all (list_all (list_all sub_distribution)) alpha" by simp
qed

theorem alpha_rows_sub_distribution_witness:
  "has_shape4 1 (mo_n_heads_mono example_module) 1 2 [[[[0, 0 :: real]]]] \<and>
   has_shape4 1 (mo_n_heads_mono example_module) 1 2 [[[[1, 0 :: real]]]] \<and>
   select_alpha example_module ''parallel'' 1 2 [[[[0, 0]]]] [[[[1, 0]]]] None (- 1) None
       \<lparr>dr_noise = [[[[0, 0]]]], dr_head = [], dr_keep = []\<rparr> =
     Inr ([[[[1 / 2, 1 / 4]]]], [[[[1 / 2, 1 / 4]]]]) \<and>
   list_all (list_all (list_all sub_distribution)) [[[[1, 0]]]] \<and>
   0 < mo_eps example_module \<and>
   list_all (list_all (list_all (list_all (\<lambda>p. p \<le> 1 - mo_eps example_module))))
     [[[[1 / 2, 1 / 2]]]] \<and>
   list_all (list_all (list_all sub_distribution)) [[[[1 / 2, 1 / 4]]]] \<and>
   select_alpha example_module ''hard'' 1 2 [[[[- 1, 1]]]] [[[[1, 0]]]] None (- 1) None no_draws =
     Inr ([[[[0, 1]]]], [[[[0, 1]]]]) \<and>
   list_all (list_all (list_all one_hot_or_zero)) [[[[1, 0]]]] \<and>
   list_all (list_all (list_all one_hot_or_zero)) [[[[0, 1]]]]"
proof -
  have sh: "has_shape4 1 (mo_n_heads_mono example_module) 1 2 [[[[0, 0 :: real]]]]"
    "has_shape4 1 (mo_n_heads_mono example_module) 1 2 [[[[1, 0 :: real]]]]"
    "has_shape4 1 (mo_n_heads_mono example_module) 1 2 [[[[- 1, 1 :: real]]]]"
    by (simp_all add: has_shape4_def example_module_eq)
  have par: "select_alpha example_module ''parallel'' 1 2 [[[[0, 0]]]] [[[[1, 0]]]] None (- 1) None
       \<lparr>dr_noise = [[[[0, 0]]]], dr_head = [], dr_keep = []\<rparr> =
     Inr ([[[[1 / 2, 1 / 4]]]], [[[[1 / 2, 1 / 4]]]])"
    by (simp add: example_module_eq select_alpha_def torch_sigmoid_0 safe_cumprod_eq
        mode_parallel_single head_dropout_def exclusive_cumprod_def cumprod_def clamp_def Let_def)
  have hard: "select_alpha example_module ''hard'' 1 2 [[[[- 1, 1]]]] [[[[1, 0]]]] None (- 1) None
       no_draws = Inr ([[[[0, 1]]]], [[[[0, 1]]]])"
    by (simp add: example_module_eq select_alpha_def hard_eval)
  have pre: "list_all (list_all (list_all sub_distribution)) [[[[1, 0]]]]"
    "0 < mo_eps example_module"
    "list_all (list_all (list_all (list_all (\<lambda>p. p \<le> 1 - mo_eps example_module))))
       [[[[1 / 2, 1 / 2]]]]"
    "list_all (list_all (list_all one_hot_or_zero)) [[[[1, 0]]]]"
    by (simp_all add: sub_distribution_def one_hot_or_zero_def example_module_eq)
  have p: "map2 (map2 (map2 (map2 (\<lambda>x n. torch_sigmoid (x + n))))) [[[[0, 0]]]] [[[[0, 0]]]] =
        [[[[1 / 2, 1 / 2]]]]"
    by (simp add: torch_sigmoid_0)
  have q: "(0::nat) < 1" by simp
  have "list_all (list_all (list_all sub_distribution)) [[[[1 / 2, 1 / 4]]]]"
  proof (rule alpha_rows_sub_distribution [OF sh(1,2) q par pre(1), THEN conjunct2, THEN conjunct2,
        THEN mp])
    show "''parallel'' = ''parallel'' \<and>
      has_shape4 1 (mo_n_heads_mono example_module) 1 2
        (dr_noise \<lparr>dr_noise = [[[[0, 0]]]], dr_head = [], dr_keep = []\<rparr>) \<and>
      0 < mo_eps example_module \<and>
      list_all (list_all (list_all (list_all (\<lambda>p. p \<le> 1 - mo_eps example_module))))
        (map2 (map2 (map2 (map2 (\<lambda>x n. torch_sigmoid (x + n))))) [[[[0, 0]]]]
          (dr_noise \<lparr>dr_noise = [[[[0, 0]]]], dr_head = [], dr_keep = []\<rparr>))"
      using sh(1) pre(2,3) by (simp only: draws.select_convs p simp_thms)
  qed
  moreover have "list_all (list_all (list_all one_hot_or_zero)) [[[[0, 1]]]]"
    using alpha_rows_sub_distribution [OF sh(3,2) q hard pre(1), THEN conjunct1] pre(4)
    by (simp only: simp_thms)
  ultimately show ?thesis using sh(1,2) par hard pre by (simp only: simp_thms)
qed

text \<open>
  Claim C5 as stated fails in two respects.  In \<open>parallel\<close> mode with the default
  \<open>aw_prev = [1, 0]\<close>, the default \<open>eps = 1e-6\<close>, zero noise and two keys of energy
  \<open>ln 99999999\<close> (\<open>p_choose = 1 - 1e-8\<close>), the factor \<open>1 - p_choose = 1e-8\<close> is clamped to
  \<open>1e-6\<close> and the row of \<open>alpha\<close> sums to more than one.  In \<open>hard\<close> mode a row
  \<open>aw_prev = [1/2, 0]\<close>, which sums to at most one, gives the row \<open>[1/2, 1/4]\<close> of
  \<open>alpha\<close> on two keys of energy zero, which is neither one-hot nor zero; and a row
  \<open>aw_prev = [2, -1]\<close>, which sums to one but is not nonnegative, gives the row
  \<open>[2, 0]\<close>, which sums to two.
\<close>

theorem alpha_row_sum_exceeds_one:
  "map_sum id fst
     (MoChA_forward example_module [[[ln 99999999 + 4], [ln 99999999 + 4]]] [[[1], [0]]] [[[1]]]
        None None ''parallel'' False None (- 1) None
        \<lparr>dr_noise = [[[[0, 0]]]], dr_head = [], dr_keep = []\<rparr>) =
   Inr ([[[99999999 / 100000000]]],
        [[[[99999999 / 100000000, 99999999 / 100000000000000]]]], None) \<and>
   1 < sum_list [99999999 / 100000000, 99999999 / 100000000000000 :: real] \<and>
   map_sum id fst
     (MoChA_forward example_module [[[4], [4]]] [[[1], [0]]] [[[1]]]
        None (Some [[[[1 / 2, 0]]]]) ''hard'' False None (- 1) None no_draws) =
   Inr ([[[1 / 2]]], [[[[1 / 2, 1 / 4]]]], None) \<and>
   sum_list [1 / 2, 0 :: real] \<le> 1 \<and>
   \<not> one_hot_or_zero [1 / 2, 1 / 4] \<and>
   map_sum id fst
     (MoChA_forward example_module [[[4], [3]]] [[[1], [0]]] [[[1]]]
        None (Some [[[[2, - 1]]]]) ''hard'' False None (- 1) None no_draws) =
   Inr ([[[2]]], [[[[2, 0]]]], None) \<and>
   sum_list [2, - 1 :: real] \<le> 1 \<and>
   1 < sum_list [2, 0 :: real]"
  by (simp add: example_module_eq forward_eval torch_sigmoid_ln safe_cumprod_eq
      mode_parallel_single head_dropout_def hard_eval clamp_def one_hot_or_zero_def)

section \<open>Masked key positions\<close>

lemma valid_prefix_nth:
  assumes "valid_prefix v" "k < length v" "v ! k" "j \<le> k"
  shows "v ! j"
proof -
  let ?t = "takeWhile (\<lambda>x. x) v" and ?d = "dropWhile (\<lambda>x. x) v"
  have v: "v = ?t @ ?d" by simp
  have "k < length ?t"
  proof (rule ccontr)
    assume "\<not> k < length ?t"
    then have nk: "length ?t \<le> k" by simp
    have "(?t @ ?d) ! k = ?d ! (k - length ?t)" using nk by (simp only: nth_append) simp
    then have "v ! k = ?d ! (k - length ?t)" by simp
    moreover have "length ?t + length ?d = length v"
      by (metis length_append takeWhile_dropWhile_id)
    then have "k - length ?t < length ?d" using nk assms(2) by linarith
    ultimately have "v ! k = ?d ! (k - length ?t)" and "k - length ?t < length ?d" by simp_all
    with assms(1) have "\<not> v ! k" by (simp add: valid_prefix_def list_all_length)
    with assms(3) show False by simp
  qed
  with assms(4) have j: "j < length ?t" by simp
  then have "v ! j = ?t ! j" by (simp add: takeWhile_nth)
  moreover have "?t ! j \<in> set ?t" using j by simp
  ultimately show ?thesis by (auto dest: set_takeWhileD)
qed

lemma neg_inf_negative: "NEG_INF < 0"
  by (simp add: NEG_INF_def)

lemma hard_row_zero:
  assumes "length aw = length e" "j < length e" "e ! j < 0"
  shows "hard_row e aw ! j = 0"
proof -
  have "\<not> 1 / 2 \<le> sigmoid (e ! j)" using assms(3) by (simp add: sigmoid_ge_half')
  then show ?thesis
    using assms(1,2) by (simp add: hard_row_def Let_def)
qed


subsection \<open>The latency control gives weight only up to the rightmost boundary\<close>

lemma latency_head_support:
  assumes "0 < eps_wait" "rm < length x"
    "latency_head fml eps_wait bt lm rm x = Inr y" "j < length x" "y ! j \<noteq> 0"
  shows "j \<le> rm \<or> (\<exists>k<length x. j \<le> k \<and> x ! k \<noteq> 0)"
proof (cases "sum_list x = 0")
  case True
  let ?i = "min (int rm) (int lm + eps_wait)"
  have i: "0 \<le> ?i" "?i < int (length x)" using assms(1,2) by simp_all
  from True assms(3) have "set_item x ?i 1 = Inr y"
    by (simp add: latency_head_def latency_target_simp)
  with i have "y = x[nat ?i := 1]" by (simp add: set_item_in_range)
  with assms(4,5) have "j = nat ?i \<or> x ! j \<noteq> 0" by (auto simp: nth_list_update split: if_splits)
  then show ?thesis
  proof
    assume "j = nat ?i"
    then have "j \<le> rm" by simp
    then show ?thesis ..
  next
    assume "x ! j \<noteq> 0"
    with assms(4) show ?thesis by blast
  qed
next
  case False
  then have ne: "nonzero x \<noteq> []" by (rule sum_list_nonzero)
  let ?f = "Min (set (nonzero x))"
  have m: "index_min (nonzero x) = Inr ?f" using ne by (simp add: index_min_Inr_iff)
  note f = Min_nonzero_less [OF ne]
  show ?thesis
  proof (cases "int ?f \<ge> int lm + eps_wait")
    case True
    let ?i = "int lm + eps_wait"
    have i: "0 \<le> ?i" "?i < int (length (map (\<lambda>_. 0::real) x))" using assms(1) True f(1) by simp_all
    from False True m assms(3) have "set_item (map (\<lambda>_. 0) x) ?i 1 = Inr y"
      by (simp add: latency_head_def latency_target_simp)
    with i have "y = (map (\<lambda>_. 0) x)[nat ?i := 1]" by (simp only: set_item_in_range sum.inject)
    moreover have "nat ?i < length (map (\<lambda>_. 0::real) x)" using i by simp
    ultimately have "y ! j = (if nat ?i = j then 1 else map (\<lambda>_. 0) x ! j)"
      by (simp only: nth_list_update)
    with assms(4,5) have "j = nat ?i" by (simp split: if_splits)
    with True have "j \<le> ?f" by simp
    with f show ?thesis by blast
  next
    case c: False
    from False c m assms(3) have "y = x"
      by (simp add: latency_head_def latency_target_simp)
    with assms(4,5) show ?thesis by blast
  qed
qed

lemma latency_batch_support:
  assumes "0 < eps_wait" "length xs = H" "list_all (\<lambda>x. length x = klen) xs"
    "latency_batch H eps_wait br xs = Inr ys" "h < H" "j < klen" "ys ! h ! j \<noteq> 0"
  shows "\<exists>x\<in>set xs. \<exists>k<klen. j \<le> k \<and> x ! k \<noteq> 0"
proof (cases "sum_list (map sum_list xs) = 0")
  case True
  with assms(4) have "ys = xs" by (simp add: latency_batch_simp [OF assms(1-3)])
  moreover have "xs ! h \<in> set xs" using assms(2,5) by simp
  ultimately show ?thesis using assms(6,7) by blast
next
  case False
  let ?S = "concat (map nonzero xs)"
  let ?f = "latency_head (br = None) eps_wait (int (size1 xs) - 1) (Min (set ?S)) (Max (set ?S))"
  have ne: "?S \<noteq> []" using False by (rule total_nonzero)
  then have in_S: "Max (set ?S) \<in> set ?S" by (intro Max_in) simp_all
  then have rm: "Max (set ?S) < klen" using assms(3) by (rule all_nonzero_bound [rotated])
  from in_S obtain x' where x': "x' \<in> set xs" "Max (set ?S) \<in> set (nonzero x')" by auto
  then have x'rm: "x' ! Max (set ?S) \<noteq> 0" by (simp add: set_nonzero)
  have xh: "xs ! h \<in> set xs" using assms(2,5) by simp
  with assms(3) have len: "length (xs ! h) = klen" by (simp add: list_all_iff)
  from False assms(4) have "ys = map (\<lambda>x. projr (?f x)) xs"
    by (simp add: latency_batch_simp [OF assms(1-3)])
  then have yh: "ys ! h = projr (?f (xs ! h))" using assms(2,5) by simp
  have "Max (set ?S) < length (xs ! h)" using rm len by simp
  from latency_head_Inr [OF assms(1) this]
  obtain y where y: "?f (xs ! h) = Inr y" by blast
  with yh have "ys ! h = y" by simp
  with latency_head_support [OF assms(1) _ y, of j] rm len assms(6,7)
  have "j \<le> Max (set ?S) \<or> (\<exists>k<klen. j \<le> k \<and> xs ! h ! k \<noteq> 0)" by simp
  then show ?thesis
  proof
    assume "j \<le> Max (set ?S)"
    with x'(1) x'rm rm show ?thesis by blast
  next
    assume "\<exists>k<klen. j \<le> k \<and> xs ! h ! k \<noteq> 0"
    with xh show ?thesis by blast
  qed
qed

subsection \<open>The chunkwise weights\<close>

lemma chunk_row_zero:
  assumes "length e = length alpha" "j < length alpha" "\<forall>k<length alpha. j \<le> k \<longrightarrow> alpha ! k = 0"
  shows "chunk_row cs sf alpha e ! j = 0"
proof -
  let ?n = "length alpha"
  let ?se = "map (\<lambda>x. max (exp (x - Max (set e))) (1 / 100000)) e"
  have ne: "?se \<noteq> []" using assms(1,2) by auto
  have z: "moving_sum (map2 (\<lambda>a d. a * sf / d) alpha d) 0 w ! j = 0" if "length d = ?n" for d w
  proof -
    let ?x = "map2 (\<lambda>a d. a * sf / d) alpha d"
    have l: "length ?x = ?n" using that by simp
    have "moving_sum ?x 0 w ! j = (\<Sum>i = j - 0 ..< min (length ?x) (j + w + 1). ?x ! i)"
      using assms(2) l by (intro moving_sum_nth) simp
    also have "\<dots> = (\<Sum>i = j - 0 ..< min (length ?x) (j + w + 1). 0)"
      using assms(3) that by (intro sum.cong refl) simp
    finally show ?thesis by simp
  qed
  have l: "length (moving_sum (map2 (\<lambda>a d. a * sf / d) alpha d) 0 w) = ?n" if "length d = ?n" for d w
    using that assms(2) by (subst length_moving_sum) auto
  show ?thesis
  proof (cases "cs = - 1")
    case True
    have d: "length (cumsum ?se) = ?n" using assms(1) by simp
    from True have "chunk_row cs sf alpha e =
        map2 (*) ?se (moving_sum (map2 (\<lambda>a d. a * sf / d) alpha (cumsum ?se)) 0 (?n - 1))"
      by (simp add: chunk_row_def Let_def)
    then show ?thesis using z [OF d] l [OF d] assms(1,2) by simp
  next
    case False
    have d: "length (moving_sum ?se (nat (cs - 1)) 0) = ?n"
      using assms(1) ne by (simp add: length_moving_sum del: map_is_Nil_conv)
    from False have "chunk_row cs sf alpha e =
        map2 (*) ?se (moving_sum (map2 (\<lambda>a d. a * sf / d) alpha
           (moving_sum ?se (nat (cs - 1)) 0)) 0 (nat (cs - 1)))"
      by (simp add: chunk_row_def Let_def)
    then show ?thesis using z [OF d] l [OF d] assms(1,2) by simp
  qed
qed

lemma set_bc: "z \<in> set (bc f xs ys) \<Longrightarrow> \<exists>x\<in>set xs. \<exists>y\<in>set ys. z = f x y"
proof -
  assume z: "z \<in> set (bc f xs ys)"
  consider "length xs = length ys" | "length xs \<noteq> length ys" "length xs = 1"
    | "length xs \<noteq> length ys" "length xs \<noteq> 1" "length ys = 1"
    | "length xs \<noteq> length ys" "length xs \<noteq> 1" "length ys \<noteq> 1"
    by blast
  then show ?thesis
  proof cases
    case 1
    with z have "z \<in> set (map2 f xs ys)" by (simp add: bc_def)
    then show ?thesis by (auto elim!: in_set_zipE)
  next
    case 2
    then have "hd xs \<in> set xs" by (cases xs) simp_all
    with 2 z show ?thesis by (auto simp: bc_def)
  next
    case 3
    then have "hd ys \<in> set ys" by (cases ys) simp_all
    with 3 z show ?thesis by (auto simp: bc_def)
  next
    case 4
    with z show ?thesis by (simp add: bc_def)
  qed
qed

lemma set_regroup: "g \<in> set (regroup n xs) \<Longrightarrow> set g \<subseteq> set xs"
  by (auto simp: regroup_def dest!: in_set_takeD in_set_dropD)

subsection \<open>The masked energy\<close>

lemma bmap2_Inr_nth:
  assumes "bmap2 f xs ys = Inr zs" "length ys = length zs"
  shows "length xs = length zs" and "i < length zs \<Longrightarrow> f (xs ! i) (ys ! i) = Inr (zs ! i)"
proof -
  from assms(1) obtain ys' where e: "expand_to (length xs) ys = Inr ys'"
    and s: "sequence (map2 f xs ys') = Inr zs"
    by (auto simp: bmap2_def split: sum.splits)
  from e have l: "length ys' = length xs" by (auto simp: expand_to_def split: if_splits)
  have q: "length zs = length (map2 f xs ys')"
    "\<forall>i<length (map2 f xs ys'). map2 f xs ys' ! i = Inr (zs ! i)"
    using sequence_Inr_nth [OF s] by blast+
  from q(1) l show lz: "length xs = length zs" by simp
  with e assms(2) have ys: "ys' = ys" by (simp add: expand_to_def)
  assume i: "i < length zs"
  with q have "map2 f xs ys' ! i = Inr (zs ! i)" by metis
  moreover have "map2 f xs ys ! i = f (xs ! i) (ys ! i)" using i lz assms(2) by simp
  ultimately show "f (xs ! i) (ys ! i) = Inr (zs ! i)" unfolding ys by simp
qed

lemma masked_fill_masked:
  assumes "masked_fill e m = Inr e'" "has_shape4 bs H q k e'" "has_shape4 bs H q k m"
    "b < bs" "h < H" "i < q" "j < k" "\<not> m ! b ! h ! i ! j"
  shows "e' ! b ! h ! i ! j = NEG_INF"
proof -
  note s = has_shape4_nth [OF assms(2)] and t = has_shape4_nth [OF assms(3)]
  let ?f1 = "\<lambda>x keep. Inr (if keep then x else NEG_INF) :: error + real"
  from assms(1) have 4: "bmap2 (bmap2 (bmap2 (bmap2 ?f1))) e m = Inr e'"
    by (simp add: masked_fill_def)
  from bmap2_Inr_nth(2) [OF 4, of b] s(1) t(1) assms(4)
  have 3: "bmap2 (bmap2 (bmap2 ?f1)) (e ! b) (m ! b) = Inr (e' ! b)" by simp
  from bmap2_Inr_nth(2) [OF 3, of h] s(2) [OF assms(4)] t(2) [OF assms(4)] assms(5)
  have 2: "bmap2 (bmap2 ?f1) (e ! b ! h) (m ! b ! h) = Inr (e' ! b ! h)" by simp
  from bmap2_Inr_nth(2) [OF 2, of i] s(3) [OF assms(4,5)] t(3) [OF assms(4,5)] assms(6)
  have 1: "bmap2 ?f1 (e ! b ! h ! i) (m ! b ! h ! i) = Inr (e' ! b ! h ! i)" by simp
  from bmap2_Inr_nth(2) [OF 1, of j] s(4) [OF assms(4,5,6)] t(4) [OF assms(4,5,6)] assms(7)
  have "?f1 (e ! b ! h ! i ! j) (m ! b ! h ! i ! j) = Inr (e' ! b ! h ! i ! j)" by simp
  with assms(8) show ?thesis by simp
qed

lemma precompute_fresh_mask:
  assumes "precompute uc s key qlen (Some msk) cache = Inr s1" "sc_key_cache s = None \<or> \<not> cache"
  shows "sc_n_heads s1 = sc_n_heads s"
    and "sc_mask_cache s1 = Some (map (\<lambda>mb. replicate (sc_n_heads s) mb) msk)"
    and "has_shape4 (length key) (sc_n_heads s) qlen (size1 key)
           (map (\<lambda>mb. replicate (sc_n_heads s) mb) msk)"
  using assms by (auto simp: precompute_def Let_def split: if_splits)

lemma precompute_heads: "precompute uc s key qlen msk cache = Inr s1 \<Longrightarrow> sc_n_heads s1 = sc_n_heads s"
  by (auto simp: precompute_def Let_def split: if_splits option.splits)

lemma apply_mask_shape:
  "apply_mask s bs qlen klen e = Inr e' \<Longrightarrow> has_shape4 bs (sc_n_heads s) qlen klen e'"
  by (auto simp: apply_mask_def split: sum.splits if_splits)

lemma expanded_mask_shape:
  assumes "has_shape3 bs qlen klen msk"
  shows "has_shape4 bs H qlen klen (map (\<lambda>mb. replicate H mb) msk)"
  using assms by (auto simp: has_shape3_def has_shape4_def list_all_iff)

text \<open>
  The mask that the scorer applies is the argument \<open>mask\<close> when the scorer stores it in
  this call, and also on a cache hit when the cached mask is that same mask.
\<close>

lemma monotonic_energy_masked:
  assumes "MonotonicEnergy_forward s key query (Some msk) cache = Inr (e, s')"
    "has_shape3 (length key) (size1 query) (size1 key) msk"
    "sc_key_cache s = None \<or> \<not> cache \<or> cache_of s key msk"
  shows "has_shape4 (length key) (sc_n_heads s) (size1 query) (size1 key) e"
    and "b < length key \<Longrightarrow> h < sc_n_heads s \<Longrightarrow> i < size1 query \<Longrightarrow> j < size1 key \<Longrightarrow>
         \<not> msk ! b ! i ! j \<Longrightarrow> e ! b ! h ! i ! j = NEG_INF"
proof -
  from assms(1) obtain s1 e0
    where pre: "precompute True s key (size1 query) (Some msk) cache = Inr s1"
      and am: "apply_mask s1 (length key) (size1 query) (size1 key) e0 = Inr e"
    by (auto simp: MonotonicEnergy_forward_def Let_def split: sum.splits)
  let ?m4 = "map (\<lambda>mb. replicate (sc_n_heads s) mb) msk"
  have p1: "sc_n_heads s1 = sc_n_heads s" using pre by (rule precompute_heads)
  have p2: "sc_mask_cache s1 = Some ?m4"
  proof (cases "sc_key_cache s = None \<or> \<not> cache")
    case True
    from precompute_fresh_mask(2) [OF pre True] show ?thesis .
  next
    case False
    then have "sc_key_cache s \<noteq> None" and c: cache by simp_all
    from precompute_cached [OF this(1), of True key "size1 query" "Some msk"] pre c
    have "s1 = s" by simp
    with False assms(3) show ?thesis by (auto simp: cache_of_def)
  qed
  have p3: "has_shape4 (length key) (sc_n_heads s) (size1 query) (size1 key) ?m4"
    using assms(2) by (rule expanded_mask_shape)
  from apply_mask_shape [OF am] p1
  show sh: "has_shape4 (length key) (sc_n_heads s) (size1 query) (size1 key) e" by simp
  from am p2 have mf: "masked_fill e0 ?m4 = Inr e"
    by (auto simp: apply_mask_def split: sum.splits if_splits)
  assume b: "b < length key" and h: "h < sc_n_heads s" and i: "i < size1 query"
    and j: "j < size1 key" and m: "\<not> msk ! b ! i ! j"
  have "length msk = length key" using has_shape4_nth(1) [OF p3] by simp
  with b h have "?m4 ! b ! h ! i ! j = msk ! b ! i ! j" by simp
  with m masked_fill_masked [OF mf sh p3 b h i j]
  show "e ! b ! h ! i ! j = NEG_INF" by simp
qed

lemma chunk_energy_shape:
  assumes "ChunkEnergy_forward s key query msk cache = Inr (e, s')"
  shows "has_shape4 (length key) (sc_n_heads s) (size1 query) (size1 key) e"
proof -
  from assms obtain s1 e0
    where pre: "precompute False s key (size1 query) msk cache = Inr s1"
      and am: "apply_mask s1 (length key) (size1 query) (size1 key) e0 = Inr e"
    by (auto simp: ChunkEnergy_forward_def Let_def split: sum.splits)
  from apply_mask_shape [OF am] precompute_heads [OF pre] show ?thesis by simp
qed


subsection \<open>The hard mode under a mask\<close>

lemma default_aw_prev_shape: "has_shape4 bs h 1 klen (default_aw_prev bs h klen)"
  by (simp add: default_aw_prev_def has_shape4_def list_all_iff)

lemma mode_hard_masked:
  assumes "mode_hard H ew br 1 e_mono aw = Inr alpha"
    "has_shape4 bs H 1 klen e_mono" "has_shape4 bs H 1 klen aw" "b < bs"
    "\<forall>h<H. \<forall>k<klen. \<not> v ! k \<longrightarrow> e_mono ! b ! h ! 0 ! k < 0"
    "0 < ew \<longrightarrow> valid_prefix v" "length v = klen"
    "h < H" "j < klen" "\<not> v ! j"
  shows "alpha ! b ! h ! 0 ! j = 0"
proof -
  note sh = hard_alpha_shape [OF assms(2,3)]
  note e = has_shape4_nth [OF assms(2)] and a = has_shape4_nth [OF assms(3)]
  let ?A = "hard_alpha e_mono aw"
  have zero: "?A ! b ! h' ! k = 0" if "h' < H" "k < klen" "\<not> v ! k" for h' k
  proof -
    have "length (aw ! b ! h' ! 0) = length (e_mono ! b ! h' ! 0)"
      using e(4) [OF assms(4) that(1), of 0] a(4) [OF assms(4) that(1), of 0] by simp
    moreover have "k < length (e_mono ! b ! h' ! 0)"
      using e(4) [OF assms(4) that(1), of 0] that(2) by simp
    moreover have "e_mono ! b ! h' ! 0 ! k < 0" using assms(5) that by simp
    ultimately show ?thesis unfolding sh(3) [OF assms(4) that(1)] by (rule hard_row_zero)
  qed
  show ?thesis
  proof (cases "0 < ew")
    case True
    with assms(6) have vp: "valid_prefix v" by simp
    have len: "length (?A ! b) = H" "list_all (\<lambda>x. length x = klen) (?A ! b)"
      using assms(4) sh(2,4) by (simp_all add: list_all_length)
    from latency_batch_Inr [OF True len, of br]
    obtain ys where ys: "latency_batch H ew br (?A ! b) = Inr ys" "length ys = H" by blast
    from mode_hard_latency [OF True assms(2,3), of br] assms(1)
    have "alpha = map (\<lambda>xs. map (\<lambda>x. [x]) (projr (latency_batch H ew br xs))) ?A" by simp
    then have al: "alpha ! b ! h ! 0 = ys ! h"
      using assms(4,8) sh(1) ys by simp
    have "ys ! h ! j = 0"
    proof (rule ccontr)
      assume "ys ! h ! j \<noteq> 0"
      from latency_batch_support [OF True len ys(1) assms(8,9) this]
      obtain x k where x: "x \<in> set (?A ! b)" and k: "k < klen" "j \<le> k" "x ! k \<noteq> 0" by blast
      from x len(1) obtain h' where h': "h' < H" "x = ?A ! b ! h'"
        by (auto simp: in_set_conv_nth)
      with zero [OF h'(1) k(1)] k(3) have "v ! k" by blast
      from valid_prefix_nth [OF vp _ this k(2)] k(1) assms(7) have "v ! j" by simp
      with assms(10) show False by simp
    qed
    with al show ?thesis by simp
  next
    case False
    then have "mode_hard H ew br 1 e_mono aw = Inr (map (map (\<lambda>x. [x])) ?A)"
      by (intro mode_hard_no_latency) simp
    with assms(1) have "alpha = map (map (\<lambda>x. [x])) ?A" by simp
    then have "alpha ! b ! h ! 0 = ?A ! b ! h" using assms(4,8) sh(1,2) by simp
    with zero [OF assms(8,9,10)] show ?thesis by simp
  qed
qed

subsection \<open>The soft modes where \<open>p_choose\<close> is zero\<close>

lemma zero_from_nth_zero: "j < length x \<Longrightarrow> x ! j = 0 \<Longrightarrow> zero_from s x ! j = 0"
  by (auto simp: zero_from_def Let_def nth_append)

lemma length_zero_from [simp]: "length (zero_from s x) = length x"
  by (auto simp: zero_from_def Let_def)

lemma parallel_rows_nth:
  assumes "\<forall>i\<in>set js. i < length P" "\<forall>i<length P. length (P ! i) = klen" "length a = klen"
    "n < length js"
  shows "\<exists>r. parallel_rows nd eps cutoff P
                (map (\<lambda>x. safe_cumprod (map (\<lambda>y. 1 - y) x) eps) P) js [a] ! n = [r] \<and>
              length r = klen \<and> (\<forall>j<klen. P ! (js ! n) ! j = 0 \<longrightarrow> r ! j = 0)"
  using assms(1,3,4)
proof (induction js arbitrary: a n)
  case Nil
  then show ?case by simp
next
  case (Cons i js)
  let ?CP = "map (\<lambda>x. safe_cumprod (map (\<lambda>y. 1 - y) x) eps) P"
  from Cons.prems have i: "i < length P" by simp
  with assms(2) have pi: "length (P ! i) = klen" by simp
  have cp: "?CP ! i = safe_cumprod (map (\<lambda>y. 1 - y) (P ! i)) eps" using i by simp
  have len: "length (P ! i) \<le> length (?CP ! i)"
    unfolding cp by (simp add: safe_cumprod_def exclusive_cumsum_def)
  let ?row = "map (\<lambda>j. P ! i ! j * ?CP ! i ! j *
                    (\<Sum>k\<le>j. a ! k / (if nd then 1 else clamp (?CP ! i ! k) eps 1)))
               [0 ..< length (P ! i)]"
  let ?r = "(case cutoff of None \<Rightarrow> (\<lambda>x. x) | Some s \<Rightarrow> zero_from s) ?row"
  have step: "parallel_step nd eps cutoff P ?CP i [a] = [?r]"
    using i pi Cons.prems(2) len by (intro parallel_step_general) simp_all
  have lr: "length ?r = klen" using pi by (simp split: option.split)
  have zr: "?r ! j = 0" if "j < klen" "P ! i ! j = 0" for j
  proof -
    have "?row ! j = 0" using that pi by simp
    moreover have "j < length ?row" using that pi by simp
    ultimately show ?thesis by (simp add: zero_from_nth_zero split: option.split)
  qed
  show ?case
  proof (cases n)
    case 0
    with lr zr show ?thesis by (simp add: step Let_def del: parallel_step_def)
  next
    case (Suc n')
    with Cons.prems have "n' < length js" "\<forall>i\<in>set js. i < length P" by simp_all
    from Cons.IH [OF this(2) lr this(1)] Suc show ?thesis
      by (simp add: step Let_def del: parallel_step_def)
  qed
qed

lemma concat_singletons_nth:
  "\<forall>n<length rows. \<exists>r. rows ! n = [r] \<Longrightarrow> i < length rows \<Longrightarrow> concat rows ! i = hd (rows ! i)"
proof (induction rows arbitrary: i)
  case Nil
  then show ?case by simp
next
  case (Cons x rows)
  from Cons.prems(1) [rule_format, of 0] obtain r where x: "x = [r]" by auto
  have rest: "\<forall>n<length rows. \<exists>r. rows ! n = [r]"
    using Cons.prems(1) by (metis Suc_less_eq length_Cons nth_Cons_Suc)
  show ?case
  proof (cases i)
    case 0
    with x show ?thesis by simp
  next
    case (Suc i')
    with Cons.prems(2) have "i' < length rows" by simp
    from Cons.IH [OF rest this] x Suc show ?thesis by simp
  qed
qed

lemma cat_rows_nth:
  assumes "length rows = qlen" "\<forall>n<length rows. \<exists>r. rows ! n = [r]" "i < qlen"
  shows "cat_rows qlen rows ! i = hd (rows ! i)"
proof (cases "qlen > 1")
  case True
  with concat_singletons_nth [OF assms(2), of i] assms(1,3) show ?thesis
    by (simp add: cat_rows_def)
next
  case False
  with assms(3) have q: "qlen = 1" "i = 0" by simp_all
  with assms(1) have "rows = [rows ! 0]" by (intro one_row) simp
  then have "last rows = rows ! 0" by (metis last.simps)
  moreover from assms(2) [rule_format, of 0] assms(1) q obtain r where "rows ! 0 = [r]" by auto
  ultimately show ?thesis using q by (simp add: cat_rows_def)
qed

lemma mode_parallel_zero:
  assumes "has_shape4 bs H qlen klen p_choose" "has_shape4 bs H 1 klen aw_prev"
    "b < bs" "h < H" "i < qlen" "j < klen" "p_choose ! b ! h ! i ! j = 0"
  shows "mode_parallel nd eps decot lookahead trigger_point qlen p_choose aw_prev ! b ! h ! i ! j = 0"
proof -
  note p = has_shape4_nth [OF assms(1)] and a = has_shape4_nth [OF assms(2)]
  note b = assms(3) and h = assms(4)
  let ?M = "mode_parallel nd eps decot lookahead trigger_point qlen p_choose aw_prev"
  define cutoff where "cutoff = (case trigger_point of None \<Rightarrow> None
                   | Some tp \<Rightarrow> if decot then Some (tp ! b + lookahead + 1) else None)"
  have Mb: "?M ! b = map2 (\<lambda>p aw. cat_rows qlen (parallel_rows nd eps cutoff p
                  (map (\<lambda>x. safe_cumprod (map (\<lambda>y. 1 - y) x) eps) p) [0 ..< qlen] aw))
             (p_choose ! b) (aw_prev ! b)"
    using b p(1) by (simp add: mode_parallel_def cutoff_def Let_def split: option.split)
  let ?P = "p_choose ! b ! h"
  from one_row [OF a(3) [OF b h]] obtain aw where aw: "aw_prev ! b ! h = [aw]" by blast
  have law: "length aw = klen" using a(4) [OF b h, of 0] aw by simp
  have P: "\<forall>i<length ?P. length (?P ! i) = klen" using p(3) [OF b h] p(4) [OF b h] by simp
  have js: "\<forall>i\<in>set [0 ..< qlen]. i < length ?P" using p(3) [OF b h] by simp
  let ?rows = "parallel_rows nd eps cutoff ?P
                  (map (\<lambda>x. safe_cumprod (map (\<lambda>y. 1 - y) x) eps) ?P) [0 ..< qlen] [aw]"
  have rows: "\<exists>r. ?rows ! n = [r] \<and> length r = klen \<and> (\<forall>j<klen. ?P ! n ! j = 0 \<longrightarrow> r ! j = 0)"
    if "n < qlen" for n
    using parallel_rows_nth [OF js P law, of n nd eps cutoff] that by simp
  have Mh: "?M ! b ! h = cat_rows qlen ?rows"
    using h p(2) [OF b] a(2) [OF b] aw by (simp add: Mb)
  have sing: "\<forall>n<length ?rows. \<exists>r. ?rows ! n = [r]"
  proof (intro allI impI)
    fix n assume "n < length ?rows"
    then have "n < qlen" by simp
    from rows [OF this] show "\<exists>r. ?rows ! n = [r]" by blast
  qed
  have "cat_rows qlen ?rows ! i = hd (?rows ! i)"
    using sing assms(5) by (intro cat_rows_nth) simp_all
  moreover from rows [OF assms(5)] assms(6,7) have "hd (?rows ! i) ! j = 0" by auto
  ultimately show ?thesis by (simp add: Mh)
qed

lemma mode_recursive_zero:
  assumes "has_shape4 bs H qlen klen p_choose" "has_shape4 bs H 1 klen aw_prev"
    "b < bs" "h < H" "0 < qlen" "j < klen" "p_choose ! b ! h ! 0 ! j = 0"
  shows "mode_recursive qlen klen p_choose aw_prev ! b ! h ! 0 ! j = 0"
proof -
  note p = has_shape4_nth [OF assms(1)] and a = has_shape4_nth [OF assms(2)]
  note b = assms(3) and h = assms(4)
  let ?M = "mode_recursive qlen klen p_choose aw_prev"
  have Mb: "?M ! b = map2 (\<lambda>p aw. cat_rows qlen (recursive_rows klen p [0 ..< qlen] aw))
             (p_choose ! b) (aw_prev ! b)"
    using b p(1) a(1) by (simp add: mode_recursive_def)
  let ?P = "p_choose ! b ! h"
  from one_row [OF a(3) [OF b h]] obtain aw where aw: "aw_prev ! b ! h = [aw]" by blast
  have law: "length aw = klen" using a(4) [OF b h, of 0] aw by simp
  have P0: "length (?P ! 0) = klen" using p(4) [OF b h, of 0] assms(5) by simp
  have "?P \<noteq> []" using p(3) [OF b h] assms(5) by auto
  then have "slice1 0 ?P = [?P ! 0]" by (cases ?P) (simp_all add: slice1_def)
  then have "recursive_step klen ?P 0 [aw] = recursive_step klen [?P ! 0] 0 [aw]"
    by (simp add: recursive_step_def slice1_def)
  also have "\<dots> = [map (\<lambda>j. ?P ! 0 ! j * monotonic_q (?P ! 0) aw (Suc j)) [0 ..< length (?P ! 0)]]"
    using recursive_step_row [of aw "?P ! 0"] law P0 by simp
  finally have st: "recursive_step klen ?P 0 [aw] =
      [map (\<lambda>j. ?P ! 0 ! j * monotonic_q (?P ! 0) aw (Suc j)) [0 ..< length (?P ! 0)]]" .
  have "?M ! b ! h = cat_rows qlen (recursive_rows klen ?P [0 ..< qlen] [aw])"
    using h p(2) [OF b] a(2) [OF b] aw by (simp add: Mb)
  then have Mh: "?M ! b ! h =
      [map (\<lambda>j. ?P ! 0 ! j * monotonic_q (?P ! 0) aw (Suc j)) [0 ..< length (?P ! 0)]]"
    by (simp only: recursive_rows_all [OF assms(5)] st)
  show ?thesis using assms(6,7) P0 by (simp add: Mh del: monotonic_q.simps)
qed


subsection \<open>The chunkwise weights of every query\<close>

lemma concat_uniform_nth:
  assumes "\<forall>m\<in>set Ms. length m = n" "g < length Ms" "i < n"
  shows "concat Ms ! (g * n + i) = Ms ! g ! i"
  using assms(1,2)
proof (induction Ms arbitrary: g)
  case Nil
  then show ?case by simp
next
  case (Cons M Ms)
  then have l: "length M = n" by simp
  show ?case
  proof (cases g)
    case 0
    with l assms(3) show ?thesis by (simp add: nth_append)
  next
    case (Suc g')
    with Cons.prems have "g' < length Ms" "\<forall>m\<in>set Ms. length m = n" by simp_all
    from Cons.IH [OF this(2,1)] Suc l show ?thesis by (simp add: nth_append)
  qed
qed

lemma length_concat_uniform:
  "\<forall>m\<in>set Ms. length m = n \<Longrightarrow> length (concat Ms) = length Ms * n"
  by (induction Ms) simp_all

lemma regroup_nth:
  assumes "length xs = G * n" "g < G" "i < n"
  shows "length (regroup n xs) = G" and "regroup n xs ! g ! i = xs ! (g * n + i)"
proof -
  from assms(3) have n: "0 < n" by simp
  then show l: "length (regroup n xs) = G" using assms(1) by (simp add: regroup_def)
  have "g * n + n \<le> G * n"
  proof -
    have "Suc g * n \<le> G * n" using assms(2) by (intro mult_le_mono1) simp
    then show ?thesis by simp
  qed
  then have "g * n + i < length xs" using assms(1,3) by simp
  then show "regroup n xs ! g ! i = xs ! (g * n + i)"
    using assms n l by (simp add: regroup_def)
qed

lemma chunkwise_zero:
  assumes "efficient_chunkwise_attention alpha e cs nh sf None = Inr beta"
    "has_shape4 bs Hm qlen klen alpha" "has_shape4 bs Hc qlen klen e"
    "b < bs" "g < length (beta ! b)" "i < qlen" "j < klen"
    "\<forall>h<Hm. \<forall>k<klen. j \<le> k \<longrightarrow> alpha ! b ! h ! i ! k = 0"
  shows "beta ! b ! g ! i ! j = 0"
proof -
  note al = has_shape4_nth [OF assms(2)] and es = has_shape4_nth [OF assms(3)]
  let ?G = "\<lambda>eb ah. bc (bc (chunk_row cs sf)) (if nh > 1 then replicate nh ah else [ah]) eb"
  let ?Ms = "concat (map (?G (e ! b)) (alpha ! b))"
  from assms(1) have "beta = map2 (\<lambda>ab eb. regroup (size1 ab) (concat (concat (map (?G eb) ab)))) alpha e"
    by (simp add: efficient_chunkwise_attention_def)
  then have bb: "beta ! b = regroup (size1 (alpha ! b)) (concat ?Ms)"
    using assms(4) al(1) es(1) by simp
  have Hm: "0 < Hm"
  proof (rule ccontr)
    assume "\<not> 0 < Hm"
    with al(2) [OF assms(4)] have "alpha ! b = []" by simp
    with bb assms(5) show False by (simp add: regroup_def)
  qed
  have s1: "size1 (alpha ! b) = qlen"
  proof -
    from al(2) [OF assms(4)] Hm obtain a0 as where "alpha ! b = a0 # as" by (cases "alpha ! b") auto
    moreover from this al(3) [OF assms(4) Hm] have "length a0 = qlen" by (metis nth_Cons_0)
    ultimately show ?thesis by (simp add: size1_def)
  qed
  have parts: "\<exists>h<Hm. \<exists>eh\<in>set (e ! b). M = map2 (chunk_row cs sf) (alpha ! b ! h) eh \<and>
                 length eh = qlen" if "M \<in> set ?Ms" for M
  proof -
    from that obtain ah where ah: "ah \<in> set (alpha ! b)" and M: "M \<in> set (?G (e ! b) ah)" by auto
    from set_bc [OF M] obtain x eh where x: "x \<in> set (if nh > 1 then replicate nh ah else [ah])"
      and eh: "eh \<in> set (e ! b)" and Mx: "M = bc (chunk_row cs sf) x eh" by blast
    from x have xa: "x = ah" by (auto split: if_splits)
    from ah al(2) [OF assms(4)] obtain h where h: "h < Hm" "ah = alpha ! b ! h"
      by (auto simp: in_set_conv_nth)
    from eh es(2) [OF assms(4)] obtain c where c: "c < Hc" "eh = e ! b ! c"
      by (auto simp: in_set_conv_nth)
    have "length ah = qlen" "length eh = qlen"
      using h c al(3) [OF assms(4) h(1)] es(3) [OF assms(4) c(1)] by simp_all
    with Mx xa have "M = map2 (chunk_row cs sf) ah eh" by (simp add: bc_def)
    with h eh \<open>length eh = qlen\<close> show ?thesis by blast
  qed
  have lens: "\<forall>M\<in>set ?Ms. length M = qlen"
  proof
    fix M assume "M \<in> set ?Ms"
    from parts [OF this] obtain h eh where "h < Hm" "M = map2 (chunk_row cs sf) (alpha ! b ! h) eh"
      "length eh = qlen" by blast
    with al(3) [OF assms(4)] show "length M = qlen" by simp
  qed
  have lc: "length (concat ?Ms) = length ?Ms * qlen" using lens by (rule length_concat_uniform)
  have "length (beta ! b) = length (concat ?Ms) div qlen"
    unfolding bb s1 by (simp add: regroup_def)
  also have "\<dots> = length ?Ms" unfolding lc using assms(6) by simp
  finally have g: "g < length ?Ms" using assms(5) by simp
  from regroup_nth(2) [OF lc g assms(6)] bb s1
  have "beta ! b ! g ! i = concat ?Ms ! (g * qlen + i)" by simp
  also have "\<dots> = ?Ms ! g ! i" using lens g assms(6) by (rule concat_uniform_nth)
  finally have row: "beta ! b ! g ! i = ?Ms ! g ! i" .
  have "?Ms ! g \<in> set ?Ms" using g by (rule nth_mem)
  from parts [OF this] obtain h eh where h: "h < Hm" and eh: "eh \<in> set (e ! b)"
    and M: "?Ms ! g = map2 (chunk_row cs sf) (alpha ! b ! h) eh" and le: "length eh = qlen"
    by blast
  have la: "length (alpha ! b ! h) = qlen" using al(3) [OF assms(4) h] .
  from M la le assms(6) have r: "?Ms ! g ! i = chunk_row cs sf (alpha ! b ! h ! i) (eh ! i)" by simp
  from eh es(2) [OF assms(4)] obtain c where c: "c < Hc" "eh = e ! b ! c"
    by (auto simp: in_set_conv_nth)
  have "chunk_row cs sf (alpha ! b ! h ! i) (eh ! i) ! j = 0"
    using al(4) [OF assms(4) h assms(6)] es(4) [OF assms(4) c(1) assms(6)] c(2) assms(7,8) h
    by (intro chunk_row_zero) simp_all
  with row r show ?thesis by simp
qed


subsection \<open>The sentinel in the soft modes\<close>

lemma exp_ge_power_2: "(2::real) ^ n \<le> exp (real n)"
proof -
  have "(2::real) \<le> exp 1" using exp_ge_add_one_self [of "1::real"] by simp
  then have "(2::real) ^ n \<le> exp 1 ^ n" by (intro power_mono) simp_all
  also have "\<dots> = exp (real n)" using exp_of_nat_mult [of n "1::real"] by simp
  finally show ?thesis .
qed

lemma torch_sigmoid_underflow:
  assumes "x \<le> - 150"
  shows "torch_sigmoid x = 0"
proof -
  have "(2::real) ^ 150 \<le> exp (real 150)" by (rule exp_ge_power_2)
  also have "\<dots> \<le> exp (- x)" using assms by simp
  finally have "(2::real) ^ 150 < 1 + exp (- x)" by simp
  then have "1 / (1 + exp (- x)) < 1 / 2 ^ 150"
    by (intro divide_strict_left_mono mult_pos_pos) (simp_all add: add_pos_pos)
  then show ?thesis by (simp add: torch_sigmoid_def sigmoid_def)
qed

lemma torch_sigmoid_sentinel: "n \<le> 2 ^ 127 \<Longrightarrow> torch_sigmoid (NEG_INF + n) = 0"
  by (rule torch_sigmoid_underflow) (simp add: NEG_INF_def)

lemma p_choose_nth:
  assumes "has_shape4 bs H qlen klen e" "has_shape4 bs H qlen klen n"
    "b < bs" "h < H" "i < qlen" "j < klen"
  shows "map2 (map2 (map2 (map2 (\<lambda>x n. torch_sigmoid (x + n))))) e n ! b ! h ! i ! j =
         torch_sigmoid (e ! b ! h ! i ! j + n ! b ! h ! i ! j)"
proof -
  note e = has_shape4_nth [OF assms(1)] and n = has_shape4_nth [OF assms(2)]
  show ?thesis
    using assms(3-6) e(1) n(1) e(2) [OF assms(3)] n(2) [OF assms(3)]
      e(3) [OF assms(3,4)] n(3) [OF assms(3,4)] e(4) [OF assms(3,4,5)] n(4) [OF assms(3,4,5)]
    by simp
qed

lemma list_all4_nth:
  assumes "list_all (list_all (list_all (list_all Q))) x" "has_shape4 bs H qlen klen x"
    "b < bs" "h < H" "i < qlen" "j < klen"
  shows "Q (x ! b ! h ! i ! j)"
proof -
  note s = has_shape4_nth [OF assms(2)]
  have "list_all Q (x ! b ! h ! i)"
    using list_all3_nth [OF assms(1), of b h i] s(1) s(2) [OF assms(3)] s(3) [OF assms(3,4)]
      assms(3-5) by simp
  then show ?thesis using s(4) [OF assms(3,4,5)] assms(6) by (simp add: list_all_length)
qed

subsection \<open>Head dropout and dropout keep a zero\<close>

lemma nested_if_cases:
  "(if C then (if D then x else y) else z) = z \<or>
   (if C then (if D then x else y) else z) = y \<or>
   (if C then (if D then x else y) else z) = x"
  by simp

lemma head_dropout_nth:
  assumes "has_shape4 bs H q k alpha"
  shows "has_shape4 bs H q k (head_dropout H p tr ds alpha)"
    and "b < bs \<Longrightarrow> h < H \<Longrightarrow> i < q \<Longrightarrow> j < k \<Longrightarrow> alpha ! b ! h ! i ! j = 0 \<Longrightarrow>
         head_dropout H p tr ds alpha ! b ! h ! i ! j = 0"
proof -
  note s = has_shape4_nth [OF assms]
  let ?dropped = "map (\<lambda>h. ds ! h < p) [0 ..< H]"
  let ?g = "\<lambda>d ah. if d then map (map (\<lambda>_. 0::real)) ah else ah"
  let ?masked = "map (\<lambda>a. map2 ?g ?dropped a) alpha"
  have mb: "?masked ! b ! h = ?g (?dropped ! h) (alpha ! b ! h)" if "b < bs" "h < H" for b h
    using that s(1) s(2) [OF that(1)] by simp
  have ms: "has_shape4 bs H q k ?masked"
  proof (rule has_shape4_I)
    show "length ?masked = bs" using s(1) by simp
    fix b assume b: "b < bs"
    then show "length (?masked ! b) = H" using s(1) s(2) [OF b] by simp
    fix h assume h: "h < H"
    show "length (?masked ! b ! h) = q" unfolding mb [OF b h] using s(3) [OF b h] by simp
    fix i assume i: "i < q"
    show "length (?masked ! b ! h ! i) = k"
      unfolding mb [OF b h] using s(3) [OF b h] s(4) [OF b h i] i by simp
  qed
  have mz: "?masked ! b ! h ! i ! j = 0"
    if "b < bs" "h < H" "i < q" "j < k" "alpha ! b ! h ! i ! j = 0" for b h i j
    unfolding mb [OF that(1,2)] using that s(3) [OF that(1,2)] s(4) [OF that(1,2,3)] by simp
  have scale: "has_shape4 bs H q k (map (map (map (map (\<lambda>x. x * c)))) x) \<and>
      (\<forall>b<bs. \<forall>h<H. \<forall>i<q. \<forall>j<k. x ! b ! h ! i ! j = 0 \<longrightarrow>
         map (map (map (map (\<lambda>x. x * c)))) x ! b ! h ! i ! j = 0)"
    if x: "has_shape4 bs H q k x" for x :: tensor4 and c :: real
  proof -
    note t = has_shape4_nth [OF x]
    have "has_shape4 bs H q k (map (map (map (map (\<lambda>x. x * c)))) x)"
      using x by (auto simp: has_shape4_def list_all_iff)
    moreover have "map (map (map (map (\<lambda>x. x * c)))) x ! b ! h ! i ! j = x ! b ! h ! i ! j * c"
      if "b < bs" "h < H" "i < q" "j < k" for b h i j
      using that t(1) t(2) [OF that(1)] t(3) [OF that(1,2)] t(4) [OF that(1,2,3)] by simp
    ultimately show ?thesis by simp
  qed
  let ?c = "real H / real (H - length (filter (\<lambda>d. d) ?dropped))"
  have R: "head_dropout H p tr ds alpha = alpha \<or> head_dropout H p tr ds alpha = ?masked \<or>
      head_dropout H p tr ds alpha = map (map (map (map (\<lambda>x. x * ?c)))) ?masked"
    unfolding head_dropout_def Let_def by (rule nested_if_cases)
  note sc = scale [OF ms, of ?c]
  from R show "has_shape4 bs H q k (head_dropout H p tr ds alpha)"
  proof (elim disjE)
    assume "head_dropout H p tr ds alpha = alpha"
    with assms show ?thesis by (simp only:)
  next
    assume "head_dropout H p tr ds alpha = ?masked"
    with ms show ?thesis by (simp only:)
  next
    assume "head_dropout H p tr ds alpha = map (map (map (map (\<lambda>x. x * ?c)))) ?masked"
    with sc [THEN conjunct1] show ?thesis by (simp only:)
  qed
  show "head_dropout H p tr ds alpha ! b ! h ! i ! j = 0"
    if "b < bs" "h < H" "i < q" "j < k" "alpha ! b ! h ! i ! j = 0"
  proof -
    note z = mz [OF that]
    from sc [THEN conjunct2, rule_format, OF that(1-4) z]
    have zs: "map (map (map (map (\<lambda>x. x * ?c)))) ?masked ! b ! h ! i ! j = 0" .
    from R show ?thesis
    proof (elim disjE)
      assume "head_dropout H p tr ds alpha = alpha"
      with that(5) show ?thesis by (simp only:)
    next
      assume "head_dropout H p tr ds alpha = ?masked"
      with z show ?thesis by (simp only:)
    next
      assume "head_dropout H p tr ds alpha = map (map (map (map (\<lambda>x. x * ?c)))) ?masked"
      with zs show ?thesis by (simp only:)
    qed
  qed
qed

lemma dropout_nth:
  assumes "has_shape4 bs G q k (dropout p tr keep x)" "b < bs" "g < G" "i < q" "j < k"
  shows "b < length x \<and> g < length (x ! b)"
    and "x ! b ! g ! i ! j = 0 \<Longrightarrow> dropout p tr keep x ! b ! g ! i ! j = 0"
proof -
  note s = has_shape4_nth [OF assms(1)]
  let ?f = "\<lambda>y k. if k then y / (1 - p) else (0::real)"
  show "b < length x \<and> g < length (x ! b)"
  proof (cases "tr \<and> p > 0")
    case False
    with s(1) s(2) [OF assms(2)] assms(2,3) show ?thesis by (simp add: dropout_def)
  next
    case True
    then have d: "dropout p tr keep x = map2 (map2 (map2 (map2 ?f))) x keep"
      by (simp add: dropout_def)
    from s(1) assms(2) have b: "b < length x" "b < length keep" unfolding d by simp_all
    then have db: "dropout p tr keep x ! b = map2 (map2 (map2 ?f)) (x ! b) (keep ! b)"
      unfolding d by simp
    from s(2) [OF assms(2)] assms(3) have "g < length (x ! b)" unfolding db by simp
    with b show ?thesis by simp
  qed
  show "dropout p tr keep x ! b ! g ! i ! j = 0" if z: "x ! b ! g ! i ! j = 0"
  proof (cases "tr \<and> p > 0")
    case False
    with z show ?thesis by (auto simp: dropout_def)
  next
    case True
    then have d: "dropout p tr keep x = map2 (map2 (map2 (map2 ?f))) x keep"
      by (simp add: dropout_def)
    from s(1) assms(2) have b: "b < length x" "b < length keep" unfolding d by simp_all
    then have db: "dropout p tr keep x ! b = map2 (map2 (map2 ?f)) (x ! b) (keep ! b)"
      unfolding d by simp
    from s(2) [OF assms(2)] assms(3) have g: "g < length (x ! b)" "g < length (keep ! b)"
      unfolding db by simp_all
    then have dg: "dropout p tr keep x ! b ! g = map2 (map2 ?f) (x ! b ! g) (keep ! b ! g)"
      unfolding db by simp
    from s(3) [OF assms(2,3)] assms(4) have i: "i < length (x ! b ! g)" "i < length (keep ! b ! g)"
      unfolding dg by simp_all
    then have di: "dropout p tr keep x ! b ! g ! i = map2 ?f (x ! b ! g ! i) (keep ! b ! g ! i)"
      unfolding dg by simp
    from s(4) [OF assms(2,3,4)] assms(5)
    have j: "j < length (x ! b ! g ! i)" "j < length (keep ! b ! g ! i)"
      unfolding di by simp_all
    then show ?thesis unfolding di using z by simp
  qed
qed


subsection \<open>Every mode under a right-padding mask\<close>

lemma select_alpha_masked:
  assumes "select_alpha m mode qlen klen e_mono aw trigger_point eps_wait boundary_rightmost rnd =
       Inr (alpha, am)"
    "has_shape4 bs (mo_n_heads_mono m) qlen klen e_mono"
    "has_shape4 bs (mo_n_heads_mono m) 1 klen aw"
    "has_shape4 bs (mo_n_heads_mono m) qlen klen alpha"
    "mode = ''hard'' \<or>
     has_shape4 bs (mo_n_heads_mono m) qlen klen (dr_noise rnd) \<and>
     list_all (list_all (list_all (list_all (\<lambda>n. n \<le> 2 ^ 127)))) (dr_noise rnd)"
    "has_shape3 bs qlen klen msk" "list_all (list_all valid_prefix) msk"
    "\<forall>b<bs. \<forall>h<mo_n_heads_mono m. \<forall>i<qlen. \<forall>j<klen.
       \<not> msk ! b ! i ! j \<longrightarrow> e_mono ! b ! h ! i ! j = NEG_INF"
  shows "has_shape4 bs (mo_n_heads_mono m) qlen klen am"
    and "b < bs \<Longrightarrow> h < mo_n_heads_mono m \<Longrightarrow> i < qlen \<Longrightarrow> j < klen \<Longrightarrow> \<not> msk ! b ! i ! j \<Longrightarrow>
         alpha ! b ! h ! i ! j = 0 \<and> am ! b ! h ! i ! j = 0"
proof -
  let ?H = "mo_n_heads_mono m"
  let ?p = "map2 (map2 (map2 (map2 (\<lambda>x n. torch_sigmoid (x + n))))) e_mono (dr_noise rnd)"
  have modes: "mode = ''hard'' \<or> mode = ''recursive'' \<or> mode = ''parallel''"
    using assms(1) by (auto simp: select_alpha_def split: if_splits)
  have pz: "?p ! b ! h ! i ! j = 0"
    if "mode \<noteq> ''hard''" "b < bs" "h < ?H" "i < qlen" "j < klen" "\<not> msk ! b ! i ! j" for b h i j
  proof -
    from assms(5) that(1) have n: "has_shape4 bs ?H qlen klen (dr_noise rnd)"
      and nb: "list_all (list_all (list_all (list_all (\<lambda>n. n \<le> 2 ^ 127)))) (dr_noise rnd)"
      by simp_all
    have "dr_noise rnd ! b ! h ! i ! j \<le> 2 ^ 127"
      using list_all4_nth [OF nb n that(2-5)] .
    then have "torch_sigmoid (NEG_INF + dr_noise rnd ! b ! h ! i ! j) = 0"
      by (rule torch_sigmoid_sentinel)
    moreover have "e_mono ! b ! h ! i ! j = NEG_INF" using assms(8) that by simp
    ultimately show ?thesis unfolding p_choose_nth [OF assms(2) n that(2-5)] by simp
  qed
  have ps: "has_shape4 bs ?H qlen klen ?p" if "mode \<noteq> ''hard''"
    using assms(5) that by (intro p_choose_shape assms(2)) simp
  have ml: "length (msk ! b ! i) = klen" "valid_prefix (msk ! b ! i)" if "b < bs" "i < qlen" for b i
    using assms(6,7) that by (auto simp: has_shape3_def list_all_length)
  have both: "has_shape4 bs ?H qlen klen am \<and>
      (\<forall>b<bs. \<forall>h<?H. \<forall>i<qlen. \<forall>j<klen. \<not> msk ! b ! i ! j \<longrightarrow>
         alpha ! b ! h ! i ! j = 0 \<and> am ! b ! h ! i ! j = 0)"
    using modes
  proof (elim disjE)
    assume mode: "mode = ''hard''"
    from assms(1) mode
    have mh: "mode_hard ?H eps_wait boundary_rightmost qlen e_mono aw = Inr alpha" and am: "am = alpha"
      by (auto simp: select_alpha_def split: sum.splits)
    then have q: "qlen = 1" by (simp add: mode_hard_def split: if_splits)
    have "alpha ! b ! h ! i ! j = 0"
      if "b < bs" "h < ?H" "i < qlen" "j < klen" "\<not> msk ! b ! i ! j" for b h i j
    proof -
      from that(3) q have i: "i = 0" by simp
      show ?thesis unfolding i
      proof (rule mode_hard_masked [OF mh [unfolded q] assms(2,3) [unfolded q] that(1) _ _ _
            that(2,4)])
        show "\<forall>h<?H. \<forall>k<klen. \<not> msk ! b ! 0 ! k \<longrightarrow> e_mono ! b ! h ! 0 ! k < 0"
          using assms(8) that(1) q neg_inf_negative by simp
        show "0 < eps_wait \<longrightarrow> valid_prefix (msk ! b ! 0)" using ml(2) [of b 0] that(1) q by simp
        show "length (msk ! b ! 0) = klen" using ml(1) [of b 0] that(1) q by simp
        show "\<not> msk ! b ! 0 ! j" using that(5) i by simp
      qed
    qed
    with am assms(4) show ?thesis by simp
  next
    assume mode: "mode = ''recursive''"
    from assms(1) mode have al: "alpha = mode_recursive qlen klen ?p aw" and am: "am = alpha"
      by (auto simp: select_alpha_def Let_def split: if_splits)
    have "alpha ! b ! h ! i ! j = 0"
      if "b < bs" "h < ?H" "i < qlen" "j < klen" "\<not> msk ! b ! i ! j" for b h i j
    proof -
      note s = has_shape4_nth [OF assms(4)]
      from that(3) have q0: "0 < qlen" by simp
      have "alpha ! b \<in> set alpha" "alpha ! b ! h \<in> set (alpha ! b)"
        using s(1) s(2) [OF that(1)] that(1,2) by simp_all
      from mode_recursive_rows [OF q0 this(1) [unfolded al] this(2) [unfolded al]]
      have "length (alpha ! b ! h) \<le> 1" unfolding al .
      with s(3) [OF that(1,2)] that(3) have i: "i = 0" by simp
      have "\<not> msk ! b ! 0 ! j" using that(5) i by simp
      from pz [OF _ that(1,2) q0 that(4) this] mode have "?p ! b ! h ! 0 ! j = 0" by simp
      from mode_recursive_zero [OF ps assms(3) that(1,2) q0 that(4) this] mode
      show ?thesis unfolding al i by simp
    qed
    with am assms(4) show ?thesis by simp
  next
    assume mode: "mode = ''parallel''"
    from assms(1) mode
    have al: "alpha = mode_parallel (mo_no_denom m) (mo_eps m) (mo_decot m) (mo_lookahead m)
                trigger_point qlen ?p aw"
      and am: "am = head_dropout ?H (mo_dropout_head m) (mo_training m) (dr_head rnd) alpha"
      by (auto simp: select_alpha_def Let_def split: if_splits)
    have z: "alpha ! b ! h ! i ! j = 0"
      if "b < bs" "h < ?H" "i < qlen" "j < klen" "\<not> msk ! b ! i ! j" for b h i j
    proof -
      have "?p ! b ! h ! i ! j = 0" using pz [OF _ that] mode by simp
      from mode_parallel_zero [OF ps assms(3) that(1-4) this] mode
      show ?thesis unfolding al by simp
    qed
    note hd = head_dropout_nth [OF assms(4), where p = "mo_dropout_head m"
        and tr = "mo_training m" and ds = "dr_head rnd"]
    show ?thesis unfolding am using hd(1) hd(2) z by simp
  qed
  from both show "has_shape4 bs ?H qlen klen am" by simp
  from both show "alpha ! b ! h ! i ! j = 0 \<and> am ! b ! h ! i ! j = 0"
    if "b < bs" "h < ?H" "i < qlen" "j < klen" "\<not> msk ! b ! i ! j"
    using that by simp
qed

lemma forward_parts:
  assumes "MoChA_forward m key value query msk aw_prev mode cache trigger_point eps_wait
       boundary_rightmost rnd = Inr ((cv, alpha, beta), m')"
  shows "\<exists>e_mono me am ce.
     MonotonicEnergy_forward (mo_monotonic_energy m) key query msk cache = Inr (e_mono, me) \<and>
     select_alpha m mode (size1 query) (size1 key) e_mono
       (case aw_prev of None \<Rightarrow> default_aw_prev (length key) (mo_n_heads_mono m) (size1 key)
        | Some aw \<Rightarrow> aw) trigger_point eps_wait boundary_rightmost rnd = Inr (alpha, am) \<and>
     chunk_stage m am key query msk cache rnd = Inr (beta, ce) \<and>
     has_shape4 (length key) (mo_n_heads_mono m) (size1 query) (size1 key) alpha \<and>
     (\<forall>bt. beta = Some bt \<longrightarrow>
        has_shape4 (length key) (mo_n_heads_mono m * mo_n_heads_chunk m) (size1 query)
          (size1 key) bt)"
proof -
  let ?aw = "case aw_prev of None \<Rightarrow> default_aw_prev (length key) (mo_n_heads_mono m) (size1 key)
        | Some aw \<Rightarrow> aw"
  from assms obtain e_mono me where
    me: "MonotonicEnergy_forward (mo_monotonic_energy m) key query msk cache = Inr (e_mono, me)"
    by (auto simp: MoChA_forward_def Let_def split: sum.splits)
  with assms obtain am where
    sa: "select_alpha m mode (size1 query) (size1 key) e_mono ?aw trigger_point eps_wait
           boundary_rightmost rnd = Inr (alpha, am)"
    by (auto simp: MoChA_forward_def Let_def split: sum.splits prod.splits if_splits)
  from assms me sa obtain ce where
    cs: "chunk_stage m am key query msk cache rnd = Inr (beta, ce)"
    by (auto simp: MoChA_forward_def Let_def split: sum.splits prod.splits if_splits)
  have big: "mo_chunk_size m > 1 \<or> mo_milk m" if "beta = Some bt" for bt
    using cs that by (auto simp: chunk_stage_def split: if_splits)
  from assms me sa cs
  have "has_shape4 (length key) (mo_n_heads_mono m) (size1 query) (size1 key) alpha"
    and "mo_chunk_size m > 1 \<or> mo_milk m \<Longrightarrow>
         has_shape4 (length key) (mo_n_heads_mono m * mo_n_heads_chunk m) (size1 query)
           (size1 key) (the beta)"
    by (auto simp: MoChA_forward_def Let_def split: sum.splits prod.splits if_splits)
  with me sa cs big show ?thesis by auto
qed

lemma chunk_stage_zero:
  assumes "chunk_stage m am key query msk cache rnd = Inr (Some bt, ce')"
    "has_shape4 (length key) Hm (size1 query) (size1 key) am"
    "has_shape4 (length key) G (size1 query) (size1 key) bt"
    "b < length key" "g < G" "i < size1 query" "j < size1 key"
    "\<forall>h<Hm. \<forall>k<size1 key. j \<le> k \<longrightarrow> am ! b ! h ! i ! k = 0"
  shows "bt ! b ! g ! i ! j = 0"
proof -
  from assms(1) obtain ce e_chunk ce1 beta0
    where ce: "ChunkEnergy_forward ce key query msk cache = Inr (e_chunk, ce1)"
      and ef: "efficient_chunkwise_attention am e_chunk (mo_chunk_size m) (mo_n_heads_chunk m)
                 (mo_sharpening_factor m) None = Inr beta0"
      and bt: "bt = dropout (mo_dropout m) (mo_training m) (dr_keep rnd) beta0"
    by (auto simp: chunk_stage_def split: if_splits option.splits sum.splits prod.splits)
  note d = dropout_nth [OF assms(3) [unfolded bt] assms(4-7)]
  from d(1) have g0: "g < length (beta0 ! b)" by simp
  from chunkwise_zero [OF ef assms(2) chunk_energy_shape [OF ce] assms(4) g0 assms(6,7,8)]
  have "beta0 ! b ! g ! i ! j = 0" .
  from d(2) [OF this] show ?thesis unfolding bt .
qed

text \<open>
  Claim C2.  For every call of \<open>forward\<close> that returns, on a module that the constructor
  can build and tensors of the documented shapes, with a right-padding mask (in every mask row the
  valid positions come first) that is the mask the monotonic scorer applies (it stores
  the mask in this call, or its cache is the one of this key and mask), and with noise below
  \<open>2\<^sup>1\<^sup>2\<^sup>7\<close> in the soft modes: every key position that the mask marks invalid has
  exactly zero weight in the returned \<open>alpha\<close> and in the returned \<open>beta\<close>, in each of
  the three modes.
\<close>

theorem masked_positions_get_no_weight:
  assumes "MoChA_forward m key value query (Some msk) aw_prev mode cache trigger_point eps_wait
       boundary_rightmost rnd = Inr ((cv, alpha, beta), m')"
    "sc_n_heads (mo_monotonic_energy m) = mo_n_heads_mono m"
    "mo_milk m = (mo_chunk_size m = - 1)"
    "has_shape3 (length key) (size1 query) (size1 key) msk"
    "list_all (list_all valid_prefix) msk"
    "sc_key_cache (mo_monotonic_energy m) = None \<or> \<not> cache \<or>
     cache_of (mo_monotonic_energy m) key msk"
    "case aw_prev of None \<Rightarrow> True
     | Some aw \<Rightarrow> has_shape4 (length key) (mo_n_heads_mono m) 1 (size1 key) aw"
    "mode = ''hard'' \<or>
     has_shape4 (length key) (mo_n_heads_mono m) (size1 query) (size1 key) (dr_noise rnd) \<and>
     list_all (list_all (list_all (list_all (\<lambda>n. n \<le> 2 ^ 127)))) (dr_noise rnd)"
    "length value = length key" "list_all (\<lambda>x. length x = size1 key) value"
  shows "\<forall>b<length key. \<forall>i<size1 query. \<forall>j<size1 key. \<not> msk ! b ! i ! j \<longrightarrow>
           (\<forall>h<mo_n_heads_mono m. alpha ! b ! h ! i ! j = 0) \<and>
           (\<forall>bt. beta = Some bt \<longrightarrow>
              (\<forall>g<mo_n_heads_mono m * mo_n_heads_chunk m. bt ! b ! g ! i ! j = 0))"
proof (intro allI impI)
  let ?aw = "case aw_prev of None \<Rightarrow> default_aw_prev (length key) (mo_n_heads_mono m) (size1 key)
        | Some aw \<Rightarrow> aw"
  let ?H = "mo_n_heads_mono m"
  fix b i j
  assume b: "b < length key" and i: "i < size1 query" and j: "j < size1 key"
    and mj: "\<not> msk ! b ! i ! j"
  from forward_parts [OF assms(1)] obtain e_mono me am ce where
    me: "MonotonicEnergy_forward (mo_monotonic_energy m) key query (Some msk) cache = Inr (e_mono, me)"
    and sa: "select_alpha m mode (size1 query) (size1 key) e_mono ?aw trigger_point eps_wait
           boundary_rightmost rnd = Inr (alpha, am)"
    and cs: "chunk_stage m am key query (Some msk) cache rnd = Inr (beta, ce)"
    and sh: "has_shape4 (length key) ?H (size1 query) (size1 key) alpha"
    and sb: "\<forall>bt. beta = Some bt \<longrightarrow>
        has_shape4 (length key) (?H * mo_n_heads_chunk m) (size1 query) (size1 key) bt"
    by blast
  note en = monotonic_energy_masked [OF me assms(4,6), unfolded assms(2)]
  have aws: "has_shape4 (length key) ?H 1 (size1 key) ?aw"
    using assms(7) default_aw_prev_shape [of "length key" ?H "size1 key"]
    by (simp split: option.splits)
  have e: "\<forall>b<length key. \<forall>h<?H. \<forall>i<size1 query. \<forall>j<size1 key.
       \<not> msk ! b ! i ! j \<longrightarrow> e_mono ! b ! h ! i ! j = NEG_INF"
    using en(2) by blast
  note m = select_alpha_masked [OF sa en(1) aws sh assms(8,4,5) e]
  show "(\<forall>h<?H. alpha ! b ! h ! i ! j = 0) \<and>
        (\<forall>bt. beta = Some bt \<longrightarrow> (\<forall>g<?H * mo_n_heads_chunk m. bt ! b ! g ! i ! j = 0))"
  proof (intro conjI allI impI)
    fix h assume "h < ?H"
    from m(2) [OF b this i j mj] show "alpha ! b ! h ! i ! j = 0" by simp
  next
    fix bt g assume bt: "beta = Some bt" and g: "g < ?H * mo_n_heads_chunk m"
    have "\<forall>h<?H. \<forall>k<size1 key. j \<le> k \<longrightarrow> am ! b ! h ! i ! k = 0"
    proof (intro allI impI)
      fix h k assume h: "h < ?H" and k: "k < size1 key" "j \<le> k"
      have row: "length (msk ! b ! i) = size1 key" "valid_prefix (msk ! b ! i)"
        using assms(4,5) b i by (auto simp: has_shape3_def list_all_length)
      have "\<not> msk ! b ! i ! k"
        using valid_prefix_nth [OF row(2), of k j] k row(1) mj by auto
      from m(2) [OF b h i k(1) this] show "am ! b ! h ! i ! k = 0" by simp
    qed
    from chunk_stage_zero [OF cs [unfolded bt] m(1) sb [rule_format, OF bt] b g i j this]
    show "bt ! b ! g ! i ! j = 0" .
  qed
qed

subsection \<open>Calls with a mask\<close>


lemma chunk_module_eq:
  "chunk_module =
     \<lparr>mo_chunk_size = 2, mo_milk = False, mo_n_heads_mono = 1, mo_n_heads_chunk = 1, mo_d_k = 1,
      mo_eps = 1 / 1000000, mo_noise_std = 1, mo_no_denom = False, mo_sharpening_factor = 1,
      mo_decot = False, mo_lookahead = 2,
      mo_monotonic_energy =
        \<lparr>sc_atype = ''scaled_dot'', sc_n_heads = 1, sc_d_k = 1, sc_scale = 1,
         sc_w_key = (\<lambda>x. x), sc_w_query = (\<lambda>x. x), sc_v = (\<lambda>x. x), sc_r = Some (- 4),
         sc_conv1d_layer = None, sc_key_cache = None, sc_mask_cache = None\<rparr>,
      mo_chunk_energy = Some
        \<lparr>sc_atype = ''scaled_dot'', sc_n_heads = 1, sc_d_k = 1, sc_scale = 1,
         sc_w_key = (\<lambda>x. x), sc_w_query = (\<lambda>x. x), sc_v = (\<lambda>x. x), sc_r = None,
         sc_conv1d_layer = None, sc_key_cache = None, sc_mask_cache = None\<rparr>,
      mo_w_value = (\<lambda>x. x), mo_w_out = (\<lambda>x. x),
      mo_dropout = 0, mo_dropout_head = 0, mo_training = False\<rparr>"
  by (simp add: chunk_module_def example_args_def identity_layers_def MoChA_init_def
      MonotonicEnergy_init_def ChunkEnergy_init_def)

lemma exp_sentinel: "(x::real) \<le> - 17 \<Longrightarrow> max (exp x) (1 / 100000) = 1 / 100000"
proof -
  assume x: "x \<le> - 17"
  have "(2::real) \<le> exp 1" using exp_ge_add_one_self [of "1::real"] by simp
  then have "(2::real) ^ 17 \<le> exp 1 ^ 17" by (intro power_mono) simp_all
  also have "\<dots> = exp (17::real)" using exp_of_nat_mult [of 17 "1::real"] by simp
  finally have "(100000::real) \<le> exp 17" by simp
  then have "1 / exp (17::real) \<le> 1 / 100000" by (intro divide_left_mono) simp_all
  moreover have "exp x \<le> exp (- 17)" using x by simp
  moreover have "exp (- 17 :: real) = 1 / exp 17" by (simp add: exp_minus field_simps)
  ultimately have "exp x \<le> 1 / 100000" by linarith
  then show ?thesis by (simp add: max_def)
qed

lemma chunk_row_right_padded:
  "chunk_row 2 1 [1, 0] [4, NEG_INF] = [1, 0]"
  by (simp add: chunk_row_def Let_def moving_sum_def conv1d_def exp_sentinel NEG_INF_def
      upt_rec [of _ "numeral _"] upt_rec [of _ "Suc _"] eval_nat_numeral)

lemma chunk_row_left_padded:
  "chunk_row 2 1 [0, 1] [NEG_INF, 4] = [1 / 100001, 100000 / 100001]"
  by (simp add: chunk_row_def Let_def moving_sum_def conv1d_def exp_sentinel NEG_INF_def
      upt_rec [of _ "numeral _"] upt_rec [of _ "Suc _"] eval_nat_numeral)


lemma sentinel_not_chosen: "\<not> 0 \<le> NEG_INF"
  using neg_inf_negative by simp

lemmas chunk_eval =
  ChunkEnergy_forward_def efficient_chunkwise_attention_def regroup_def bc_def dropout_def
  sentinel_not_chosen

lemma torch_sigmoid_NEG_INF: "torch_sigmoid NEG_INF = 0"
  using torch_sigmoid_sentinel [of 0] by simp

lemma chunk_row_half:
  "chunk_row 2 1 [1 / 2, 0] [4, NEG_INF] = [1 / 2, 0]"
  by (simp add: chunk_row_def Let_def moving_sum_def conv1d_def exp_sentinel NEG_INF_def
      upt_rec [of _ "numeral _"] upt_rec [of _ "Suc _"] eval_nat_numeral)

theorem masked_positions_get_no_weight_witness:
  "map_sum id fst
     (MoChA_forward chunk_module [[[4], [4]]] [[[1], [2]]] [[[1]]]
        (Some [[[True, False]]]) None ''parallel'' False None (- 1) None
        \<lparr>dr_noise = [[[[0, 0]]]], dr_head = [], dr_keep = []\<rparr>) =
   Inr ([[[1 / 2]]], [[[[1 / 2, 0]]]], Some [[[[1 / 2, 0]]]]) \<and>
   map_sum id fst
     (MoChA_forward chunk_module [[[4], [4]]] [[[1], [2]]] [[[1]]]
        (Some [[[True, False]]]) None ''hard'' False None (- 1) None no_draws) =
   Inr ([[[1]]], [[[[1, 0]]]], Some [[[[1, 0]]]]) \<and>
   sc_n_heads (mo_monotonic_energy chunk_module) = mo_n_heads_mono chunk_module \<and>
   mo_milk chunk_module = (mo_chunk_size chunk_module = - 1) \<and>
   has_shape3 1 1 2 [[[True, False]]] \<and>
   list_all (list_all valid_prefix) [[[True, False]]] \<and>
   has_shape4 1 1 1 2 [[[[0, 0 :: real]]]] \<and>
   list_all (list_all (list_all (list_all (\<lambda>n. n \<le> 2 ^ 127)))) [[[[0, 0 :: real]]]] \<and>
   \<not> [[[True, False]]] ! 0 ! 0 ! 1 \<and>
   [[[[1 / 2, 0 :: real]]]] ! 0 ! 0 ! 0 ! 1 = 0 \<and>
   [[[[1, 0 :: real]]]] ! 0 ! 0 ! 0 ! 1 = 0"
proof -
  let ?rnd = "\<lparr>dr_noise = [[[[0, 0 :: real]]]], dr_head = [], dr_keep = []\<rparr>"
  define F where "F = MoChA_forward chunk_module [[[4], [4]]] [[[1], [2]]] [[[1]]]
        (Some [[[True, False]]]) None ''parallel'' False None (- 1) None ?rnd"
  define G where "G = MoChA_forward chunk_module [[[4], [4]]] [[[1], [2]]] [[[1]]]
        (Some [[[True, False]]]) None ''hard'' False None (- 1) None no_draws"
  have evF: "map_sum id fst F = Inr ([[[1 / 2]]], [[[[1 / 2, 0]]]], Some [[[[1 / 2, 0]]]])"
    unfolding F_def
    by (simp add: chunk_module_eq forward_eval chunk_eval chunk_row_half torch_sigmoid_0
        torch_sigmoid_NEG_INF safe_cumprod_eq mode_parallel_single head_dropout_def
        exclusive_cumprod_def cumprod_def clamp_def Let_def)
  have evG: "map_sum id fst G = Inr ([[[1]]], [[[[1, 0]]]], Some [[[[1, 0]]]])"
    unfolding G_def
    by (simp add: chunk_module_eq forward_eval hard_eval chunk_eval chunk_row_right_padded)
  from evF obtain m1 where f: "F = Inr (([[[1 / 2]]], [[[[1 / 2, 0]]]], Some [[[[1 / 2, 0]]]]), m1)"
    by (cases F) auto
  from evG obtain m2 where g: "G = Inr (([[[1]]], [[[[1, 0]]]], Some [[[[1, 0]]]]), m2)"
    by (cases G) auto
  have pre: "sc_n_heads (mo_monotonic_energy chunk_module) = mo_n_heads_mono chunk_module"
    "mo_milk chunk_module = (mo_chunk_size chunk_module = - 1)"
    "has_shape3 1 1 2 [[[True, False]]]"
    "list_all (list_all valid_prefix) [[[True, False]]]"
    "has_shape4 1 1 1 2 [[[[0, 0 :: real]]]]"
    "list_all (list_all (list_all (list_all (\<lambda>n. n \<le> 2 ^ 127)))) [[[[0, 0 :: real]]]]"
    "\<not> [[[True, False]]] ! 0 ! 0 ! 1"
    by (simp_all add: chunk_module_eq valid_prefix_def has_shape3_def has_shape4_def)
  have sz: "length [[[4 :: real], [4]]] = 1" "size1 [[[4 :: real], [4]]] = 2"
    "size1 [[[1 :: real]]] = 1" "mo_n_heads_mono chunk_module = 1"
    by (simp_all add: size1_def chunk_module_eq)
  have sh3: "has_shape3 (length [[[4 :: real], [4]]]) (size1 [[[1 :: real]]])
      (size1 [[[4 :: real], [4]]]) [[[True, False]]]"
    unfolding sz by (rule pre(3))
  have fresh: "sc_key_cache (mo_monotonic_energy chunk_module) = None \<or> \<not> False \<or>
     cache_of (mo_monotonic_energy chunk_module) [[[4], [4]]] [[[True, False]]]"
    by simp
  have aw: "case (None :: tensor4 option) of None \<Rightarrow> True
     | Some aw \<Rightarrow> has_shape4 (length [[[4 :: real], [4]]]) (mo_n_heads_mono chunk_module) 1
         (size1 [[[4 :: real], [4]]]) aw" by simp
  have noise: "''parallel'' = ''hard'' \<or>
     has_shape4 (length [[[4 :: real], [4]]]) (mo_n_heads_mono chunk_module) (size1 [[[1 :: real]]])
       (size1 [[[4 :: real], [4]]]) (dr_noise ?rnd) \<and>
     list_all (list_all (list_all (list_all (\<lambda>n. n \<le> 2 ^ 127)))) (dr_noise ?rnd)"
    unfolding sz using pre(5,6) by simp
  have hard: "''hard'' = ''hard'' \<or>
     has_shape4 (length [[[4 :: real], [4]]]) (mo_n_heads_mono chunk_module) (size1 [[[1 :: real]]])
       (size1 [[[4 :: real], [4]]]) (dr_noise no_draws) \<and>
     list_all (list_all (list_all (list_all (\<lambda>n. n \<le> 2 ^ 127)))) (dr_noise no_draws)"
    by simp
  have val: "length [[[1 :: real], [2]]] = length [[[4 :: real], [4]]]"
    "list_all (\<lambda>x. length x = size1 [[[4 :: real], [4]]]) [[[1 :: real], [2]]]"
    by (simp_all add: size1_def)
  note t1 = masked_positions_get_no_weight [OF f [unfolded F_def] pre(1,2) sh3 pre(4) fresh aw noise
      val, unfolded sz, rule_format, of 0 0 1]
  note t2 = masked_positions_get_no_weight [OF g [unfolded G_def] pre(1,2) sh3 pre(4) fresh aw hard
      val, unfolded sz, rule_format, of 0 0 1]
  have a: "[[[[1 / 2, 0 :: real]]]] ! 0 ! 0 ! 0 ! 1 = 0" using t1 pre(7) by simp
  have b: "[[[[1, 0 :: real]]]] ! 0 ! 0 ! 0 ! 1 = 0" using t2 pre(7) by simp
  from evF [unfolded F_def] evG [unfolded G_def] pre a b show ?thesis by (simp only: simp_thms)
qed

text \<open>
  Right padding is needed for \<open>beta\<close>.  \<open>efficient_chunkwise_attention\<close> does not use its
  argument \<open>mask\<close>, and the clamp of the exponentiated chunk energy at \<open>1e-5\<close> gives a
  masked position inside the window a share: with \<open>chunk_size = 2\<close>, two keys, the mask
  \<open>[invalid, valid]\<close> and a boundary at the second key, \<open>beta\<close> is
  \<open>[1/100001, 100000/100001]\<close>.
\<close>

lemma left_padded_mask_gets_chunk_weight:
  "map_sum id fst
     (MoChA_forward chunk_module [[[4], [4]]] [[[1], [0]]] [[[1]]]
        (Some [[[False, True]]]) None ''hard'' False None (- 1) None no_draws) =
   Inr ([[[1 / 100001]]], [[[[0, 1]]]], Some [[[[1 / 100001, 100000 / 100001]]]]) \<and>
   \<not> list_all (list_all valid_prefix) [[[False, True]]]"
  by (simp add: chunk_module_eq forward_eval hard_eval chunk_eval chunk_row_left_padded
      valid_prefix_def)

end
